theory Spec2Isabelle
  imports Complex_Main "HOL-Library.Word"
begin

chapter \<open>The model\<close>

section \<open>Strings\<close>

text \<open>
  A JavaScript string is a sequence of UTF-16 code units. Code units are modelled as
  natural numbers, a string as the list of its code units. \<open>js\<close> turns an Isabelle
  string literal into such a list, for readable concrete inputs.
\<close>

type_synonym jsstring = "nat list"

definition js :: "string \<Rightarrow> jsstring" where
  "js s = map of_char s"

section \<open>Tracking matches\<close>

datatype carrier = UPS | FedEx | USPS | DHL | Amazon | OnTrac

text \<open>The object \<^verbatim>\<open>{ carrier, number }\<close> returned by \<^verbatim>\<open>pickTracking\<close>.\<close>

record tracking =
  carrier :: carrier
  number :: jsstring

section \<open>The stability gate (\<^verbatim>\<open>maybeEmit\<close>)\<close>

text \<open>
  The module-level variables of the scanner that \<^verbatim>\<open>maybeEmit\<close> and
  \<^verbatim>\<open>stopDecoding\<close> read and write. \<^verbatim>\<open>null\<close> is \<open>None\<close>. Time stamps
  (\<^verbatim>\<open>Date.now()\<close>, milliseconds) are integers. \<open>codeReader\<close> records
  only whether the handle is non-null; \<open>currentStream\<close> is the list of tracks of
  the open media stream.
\<close>

record scanner =
  codeReader :: bool
  isScanning :: bool
  currentStream :: "nat list option"
  usingNativeDetector :: bool
  rafId :: "nat option"
  lastTracking :: "jsstring option"
  prevCandidate :: "jsstring option"
  stableCount :: nat
  cooldownUntil :: int

definition STABLE_FRAMES :: nat where
  "STABLE_FRAMES = 3"

definition COOLDOWN_MS :: int where
  "COOLDOWN_MS = 900"

text \<open>The values the variables are declared with when the module is loaded.\<close>

definition initial_scanner :: scanner where
  "initial_scanner =
     \<lparr>codeReader = False, isScanning = False, currentStream = None,
      usingNativeDetector = False, rafId = None,
      lastTracking = None, prevCandidate = None, stableCount = 0, cooldownUntil = 0\<rparr>"

text \<open>
  \<^verbatim>\<open>const candidate = tracking?.number || null\<close>: a missing match and an empty
  number both give \<^verbatim>\<open>null\<close>.
\<close>

definition candidate :: "tracking option \<Rightarrow> jsstring option" where
  "candidate tr =
     (case tr of
        None \<Rightarrow> None
      | Some t \<Rightarrow> (if number t = [] then None else Some (number t)))"

text \<open>
  \<^verbatim>\<open>maybeEmit(tracking, rawText)\<close>, with the clock reading \<open>now\<close> as an argument.
  The result is the returned boolean (\<open>True\<close> exactly when \<^verbatim>\<open>renderState\<close> was
  called) and the updated variables.
\<close>

definition maybeEmit :: "scanner \<Rightarrow> tracking option \<Rightarrow> int \<Rightarrow> bool \<times> scanner" where
  "maybeEmit st tr now =
     (case candidate tr of
        None \<Rightarrow> (False, st\<lparr>prevCandidate := None, stableCount := 0\<rparr>)
      | Some c \<Rightarrow>
          (let st1 = (if Some c = prevCandidate st
                      then st\<lparr>stableCount := stableCount st + 1\<rparr>
                      else st\<lparr>prevCandidate := Some c, stableCount := 1\<rparr>)
           in if STABLE_FRAMES \<le> stableCount st1
                 \<and> (Some c \<noteq> lastTracking st1 \<or> cooldownUntil st1 < now)
              then (True, st1\<lparr>lastTracking := Some c, cooldownUntil := now + COOLDOWN_MS\<rparr>)
              else (False, st1)))"

text \<open>
  The live loop hands every decoded frame to \<^verbatim>\<open>maybeEmit\<close>, one after the other.
  A frame is the extractor's result together with the clock reading at that call;
  the result lists, per frame, whether it emitted.
\<close>

fun liveFrames :: "scanner \<Rightarrow> (tracking option \<times> int) list \<Rightarrow> bool list" where
  "liveFrames st [] = []"
| "liveFrames st ((tr, now) # fs) =
     (case maybeEmit st tr now of (e, st') \<Rightarrow> e # liveFrames st' fs)"

text \<open>
  \<^verbatim>\<open>stopDecoding()\<close>. \<open>resetThrows\<close> says whether \<^verbatim>\<open>codeReader.reset()\<close>
  throws; the \<^verbatim>\<open>catch\<close> then only logs, and the assignments after the call are
  skipped. \<^verbatim>\<open>if (rafId)\<close> is false for \<^verbatim>\<open>null\<close> and for \<^verbatim>\<open>0\<close>.
\<close>

definition stopDecoding :: "bool \<Rightarrow> scanner \<Rightarrow> scanner" where
  "stopDecoding resetThrows st =
     (let st1 = st\<lparr>usingNativeDetector := False\<rparr>;
          st2 = (case rafId st1 of
                   None \<Rightarrow> st1
                 | Some r \<Rightarrow> (if r \<noteq> 0 then st1\<lparr>rafId := None\<rparr> else st1))
      in if codeReader st2 \<and> isScanning st2 \<and> resetThrows then st2
         else st2\<lparr>currentStream := None, isScanning := False\<rparr>)"

text \<open>
  Two states of a session: just started, and after A has been emitted at time 1000.
\<close>

definition example_session :: scanner where
  "example_session = initial_scanner\<lparr>codeReader := True, isScanning := True\<rparr>"

definition example_emitted :: scanner where
  "example_emitted =
     initial_scanner\<lparr>codeReader := True, isScanning := True,
       lastTracking := Some (js ''A''), prevCandidate := Some (js ''A''),
       stableCount := 3, cooldownUntil := 1900\<rparr>"

section \<open>Pixel surfaces and the invert transform\<close>

text \<open>
  A surface is a width, a height and the RGBA bytes of \<^verbatim>\<open>ImageData.data\<close>
  (a \<^verbatim>\<open>Uint8ClampedArray\<close>) in row-major order, four bytes per pixel.
\<close>

type_synonym byte = "8 word"

record surface =
  width :: nat
  height :: nat
  pixels :: "byte list"

text \<open>
  The loop of \<^verbatim>\<open>createInvertedCanvas\<close>:
  \<^verbatim>\<open>for (let i = 0; i < data.length; i += 4) { data[i] = 255 - data[i]; ... }\<close>,
  updating the buffer in place. A write past the end of a typed array is ignored, as
  an update past the end of a list is.
\<close>

function invert_loop :: "nat \<Rightarrow> byte list \<Rightarrow> byte list" where
  "invert_loop i data =
     (if i < length data
      then invert_loop (i + 4)
             (data[i := 255 - data ! i,
                   i + 1 := 255 - data ! (i + 1),
                   i + 2 := 255 - data ! (i + 2)])
      else data)"
  by pat_completeness auto
termination
  by (relation "measure (\<lambda>(i, data). length data - i)") auto

declare invert_loop.simps [simp del]

text \<open>
  \<^verbatim>\<open>createInvertedCanvas\<close> on the decoded image: a canvas of the image's size
  whose pixels are the image's pixels after the loop.
\<close>

definition createInvertedCanvas :: "surface \<Rightarrow> surface" where
  "createInvertedCanvas img =
     \<lparr>width = width img, height = height img, pixels = invert_loop 0 (pixels img)\<rparr>"

section \<open>Regular expressions\<close>

text \<open>
  The character classes of the patterns in the source, on UTF-16 code units:
  \<^verbatim>\<open>\d\<close> is \<open>0-9\<close>, \<^verbatim>\<open>\w\<close> is \<open>A-Za-z0-9_\<close>, and \<^verbatim>\<open>\s\<close> is
  the white space and line terminator code points of ECMAScript (tab, line feed,
  vertical tab, form feed, carriage return, space, U+00A0, U+1680, U+2000 to U+200A,
  U+2028, U+2029, U+202F, U+205F, U+3000, U+FEFF).
\<close>

definition isDigit :: "nat \<Rightarrow> bool" where
  "isDigit c = (48 \<le> c \<and> c \<le> 57)"

definition isWordChar :: "nat \<Rightarrow> bool" where
  "isWordChar c = ((97 \<le> c \<and> c \<le> 122) \<or> (65 \<le> c \<and> c \<le> 90) \<or> isDigit c \<or> c = 95)"

definition isWhiteSpace :: "nat \<Rightarrow> bool" where
  "isWhiteSpace c =
     (c = 9 \<or> c = 10 \<or> c = 11 \<or> c = 12 \<or> c = 13 \<or> c = 32 \<or> c = 160 \<or> c = 5760
      \<or> (8192 \<le> c \<and> c \<le> 8202) \<or> c = 8232 \<or> c = 8233 \<or> c = 8239 \<or> c = 8287
      \<or> c = 12288 \<or> c = 65279)"

text \<open>
  Case folding for the \<^verbatim>\<open>i\<close> flag. None of the patterns has the
  \<^verbatim>\<open>u\<close> flag, so a code unit outside ASCII is never folded onto an ASCII
  letter; the patterns contain ASCII characters only, and for them two code units
  have the same canonical form exactly when they are equal or are the two cases of
  one ASCII letter.
\<close>

definition toUpper :: "nat \<Rightarrow> nat" where
  "toUpper c = (if 97 \<le> c \<and> c \<le> 122 then c - 32 else c)"

definition toLower :: "nat \<Rightarrow> nat" where
  "toLower c = (if 65 \<le> c \<and> c \<le> 90 then c + 32 else c)"

text \<open>
  One-character pattern items: a literal character, \<^verbatim>\<open>\d\<close>, \<^verbatim>\<open>\w\<close>,
  \<^verbatim>\<open>\s\<close>, and a bracket class given by its ranges, such as \<^verbatim>\<open>[0-9A-Z]\<close>.
\<close>

datatype atom = Chr char | Digit | WordChar | Space | Ranges "(char \<times> char) list"

fun inClass :: "atom \<Rightarrow> nat \<Rightarrow> bool" where
  "inClass (Chr k) c = (c = of_char k)"
| "inClass Digit c = isDigit c"
| "inClass WordChar c = isWordChar c"
| "inClass Space c = isWhiteSpace c"
| "inClass (Ranges rs) c = list_ex (\<lambda>(lo, hi). of_char lo \<le> c \<and> c \<le> of_char hi) rs"

definition matchesAtom :: "bool \<Rightarrow> atom \<Rightarrow> nat \<Rightarrow> bool" where
  "matchesAtom ic a c =
     (if ic then inClass a c \<or> inClass a (toUpper c) \<or> inClass a (toLower c)
      else inClass a c)"

text \<open>
  The pattern syntax the source uses: the assertions \<^verbatim>\<open>^\<close> and \<^verbatim>\<open>$\<close>
  (no \<^verbatim>\<open>m\<close> flag: start and end of the input), one item, a greedy
  quantified item \<open>Rep a lo hi\<close> for \<^verbatim>\<open>a{lo,hi}\<close> (\<open>hi = None\<close>: no upper
  bound, so \<^verbatim>\<open>a+\<close> is \<open>Rep a 1 None\<close> and \<^verbatim>\<open>a?\<close> is \<open>Rep a 0 (Some 1)\<close>),
  concatenation and alternation. Groups only bracket, so they do not appear.
\<close>

datatype regex =
    Bol | Eol
  | One atom
  | Rep atom nat "nat option"
  | Seq regex regex
  | Alt regex regex

text \<open>
  Backtracking matching. \<open>ends ic n rx r\<close> lists, in the order in which the
  backtracking matcher tries them, the rests of the input that remain after \<open>rx\<close>
  has matched a prefix of \<open>r\<close>; \<open>n\<close> is the length of the whole input, so that
  \<^verbatim>\<open>^\<close> can tell the start, and \<open>ic\<close> is the \<^verbatim>\<open>i\<close> flag. A greedy quantifier
  tries the longest repetition first.
\<close>

fun ends :: "bool \<Rightarrow> nat \<Rightarrow> regex \<Rightarrow> jsstring \<Rightarrow> jsstring list" where
  "ends ic n Bol r = (if length r = n then [r] else [])"
| "ends ic n Eol r = (if r = [] then [r] else [])"
| "ends ic n (One a) r =
     (case r of [] \<Rightarrow> [] | c # cs \<Rightarrow> (if matchesAtom ic a c then [cs] else []))"
| "ends ic n (Rep a lo hi) r =
     (let k = length (takeWhile (matchesAtom ic a) r);
          m = (case hi of None \<Rightarrow> k | Some h \<Rightarrow> min k h)
      in if m < lo then [] else map (\<lambda>j. drop j r) (rev [lo..<Suc m]))"
| "ends ic n (Seq p q) r = concat (map (ends ic n q) (ends ic n p r))"
| "ends ic n (Alt p q) r = ends ic n p r @ ends ic n q r"

text \<open>
  \<^verbatim>\<open>String.prototype.match\<close> with a pattern without the \<^verbatim>\<open>g\<close> flag: the
  start positions are tried from left to right, and the first way the pattern matches
  at the first position where it matches is the result. The value is the matched
  text, \<^verbatim>\<open>match[0]\<close>, or \<open>None\<close> for \<^verbatim>\<open>null\<close>.
\<close>

fun exec_from :: "bool \<Rightarrow> nat \<Rightarrow> regex \<Rightarrow> jsstring \<Rightarrow> jsstring option" where
  "exec_from ic n rx [] = (case ends ic n rx [] of [] \<Rightarrow> None | e # es \<Rightarrow> Some [])"
| "exec_from ic n rx (c # cs) =
     (case ends ic n rx (c # cs) of
        [] \<Rightarrow> exec_from ic n rx cs
      | e # es \<Rightarrow> Some (take (length (c # cs) - length e) (c # cs)))"

record jsregex =
  source :: regex
  ignoreCase :: bool

definition match :: "jsstring \<Rightarrow> jsregex \<Rightarrow> jsstring option" where
  "match text rx = exec_from (ignoreCase rx) (length text) (source rx) text"

text \<open>
  Concatenation of a non-empty list of patterns (the empty list, which matches the
  empty string, is not used), and \<open>anchored body\<close> for \<^verbatim>\<open>^body$\<close>.
\<close>

fun seqs :: "regex list \<Rightarrow> regex" where
  "seqs [] = Rep Digit 0 (Some 0)"
| "seqs [r] = r"
| "seqs (r # rs) = Seq r (seqs rs)"

definition anchored :: "regex \<Rightarrow> regex" where
  "anchored body = Seq Bol (Seq body Eol)"

text \<open>
  The meaning of a pattern without assertions as a set of strings, to state what the
  matcher computes: \<open>accepts ic rx w\<close> says that \<open>rx\<close> matches exactly \<open>w\<close>.
\<close>

fun anchor_free :: "regex \<Rightarrow> bool" where
  "anchor_free Bol = False"
| "anchor_free Eol = False"
| "anchor_free (One a) = True"
| "anchor_free (Rep a lo hi) = True"
| "anchor_free (Seq p q) = (anchor_free p \<and> anchor_free q)"
| "anchor_free (Alt p q) = (anchor_free p \<and> anchor_free q)"

fun accepts :: "bool \<Rightarrow> regex \<Rightarrow> jsstring \<Rightarrow> bool" where
  "accepts ic Bol w = (w = [])"
| "accepts ic Eol w = (w = [])"
| "accepts ic (One a) w = (\<exists>c. w = [c] \<and> matchesAtom ic a c)"
| "accepts ic (Rep a lo hi) w =
     (lo \<le> length w \<and> (case hi of None \<Rightarrow> True | Some h \<Rightarrow> length w \<le> h)
      \<and> list_all (matchesAtom ic a) w)"
| "accepts ic (Seq p q) w = (\<exists>u v. w = u @ v \<and> accepts ic p u \<and> accepts ic q v)"
| "accepts ic (Alt p q) w = (accepts ic p w \<or> accepts ic q w)"

text \<open>
  \<open>spaced_groups ks w\<close>: \<open>w\<close> consists of groups of digits of the sizes \<open>ks\<close>,
  in this order, with one or more white space characters between neighbours.
\<close>

fun spaced_groups :: "nat list \<Rightarrow> jsstring \<Rightarrow> bool" where
  "spaced_groups [] w = (w = [])"
| "spaced_groups [k] w = (length w = k \<and> list_all isDigit w)"
| "spaced_groups (k # ks) w =
     (\<exists>g sep rest. w = g @ sep @ rest \<and> length g = k \<and> list_all isDigit g
        \<and> sep \<noteq> [] \<and> list_all isWhiteSpace sep \<and> spaced_groups ks rest)"

text \<open>
  The same with exactly one white space character between neighbours.
\<close>

fun single_spaced_groups :: "nat list \<Rightarrow> jsstring \<Rightarrow> bool" where
  "single_spaced_groups [] w = (w = [])"
| "single_spaced_groups [k] w = (length w = k \<and> list_all isDigit w)"
| "single_spaced_groups (k # ks) w =
     (\<exists>g c rest. w = g @ c # rest \<and> length g = k \<and> list_all isDigit g
        \<and> isWhiteSpace c \<and> single_spaced_groups ks rest)"

text \<open>
  A pattern that ends with \<^verbatim>\<open>$\<close>.
\<close>

fun eol_terminated :: "regex \<Rightarrow> bool" where
  "eol_terminated Eol = True"
| "eol_terminated (Seq p q) = eol_terminated q"
| "eol_terminated r = False"

text \<open>
  The entries of \<^verbatim>\<open>trackingPatterns\<close>, in the order of the object literal,
  which is the order in which \<^verbatim>\<open>Object.entries\<close> lists them:
  \<^verbatim>\<open>/^1Z[0-9A-Z]{16}$/i\<close>, \<^verbatim>\<open>/^(\d{12}|\d{15})$/\<close>,
  \<^verbatim>\<open>/^(\d{20,22}|\d{4}\s?\d{4}\s?\d{4}\s?\d{4}\s?\d{4}\s?\d{4}\s?\d{2})$/\<close>,
  \<^verbatim>\<open>/^\d{10}$/\<close>, \<^verbatim>\<open>/^(TBA\d{12}|AMZN\w{8,})$/i\<close> and \<^verbatim>\<open>/^C\d{14}$/\<close>.
\<close>

definition upsPattern :: jsregex where
  "upsPattern =
     \<lparr>source = anchored (seqs [One (Chr CHR ''1''), One (Chr CHR ''Z''),
                      Rep (Ranges [(CHR ''0'', CHR ''9''), (CHR ''A'', CHR ''Z'')]) 16 (Some 16)]),
      ignoreCase = True\<rparr>"

definition fedexPattern :: jsregex where
  "fedexPattern =
     \<lparr>source = anchored (Alt (Rep Digit 12 (Some 12)) (Rep Digit 15 (Some 15))),
      ignoreCase = False\<rparr>"

definition uspsPattern :: jsregex where
  "uspsPattern =
     \<lparr>source = anchored
                (Alt (Rep Digit 20 (Some 22))
                     (seqs [Rep Digit 4 (Some 4), Rep Space 0 (Some 1),
                            Rep Digit 4 (Some 4), Rep Space 0 (Some 1),
                            Rep Digit 4 (Some 4), Rep Space 0 (Some 1),
                            Rep Digit 4 (Some 4), Rep Space 0 (Some 1),
                            Rep Digit 4 (Some 4), Rep Space 0 (Some 1),
                            Rep Digit 4 (Some 4), Rep Space 0 (Some 1),
                            Rep Digit 2 (Some 2)])),
      ignoreCase = False\<rparr>"

definition dhlPattern :: jsregex where
  "dhlPattern = \<lparr>source = anchored (Rep Digit 10 (Some 10)), ignoreCase = False\<rparr>"

definition amazonPattern :: jsregex where
  "amazonPattern =
     \<lparr>source = anchored
                (Alt (seqs [One (Chr CHR ''T''), One (Chr CHR ''B''), One (Chr CHR ''A''),
                            Rep Digit 12 (Some 12)])
                     (seqs [One (Chr CHR ''A''), One (Chr CHR ''M''), One (Chr CHR ''Z''),
                            One (Chr CHR ''N''), Rep WordChar 8 None])),
      ignoreCase = True\<rparr>"

definition ontracPattern :: jsregex where
  "ontracPattern =
     \<lparr>source = anchored (seqs [One (Chr CHR ''C''), Rep Digit 14 (Some 14)]),
      ignoreCase = False\<rparr>"

definition trackingPatterns :: "(carrier \<times> jsregex) list" where
  "trackingPatterns =
     [(UPS, upsPattern), (FedEx, fedexPattern), (USPS, uspsPattern),
      (DHL, dhlPattern), (Amazon, amazonPattern), (OnTrac, ontracPattern)]"

text \<open>
  The two patterns of the last two steps of \<^verbatim>\<open>pickTracking\<close>:
  \<^verbatim>\<open>/(\d{4}\s+\d{4}\s+\d{4}\s+\d{4}\s+\d{4}\s+\d{4}\s+\d{2})/\<close> and \<^verbatim>\<open>/(\d{20,22})/\<close>.
  In both the only group encloses the whole pattern, so \<^verbatim>\<open>match[1]\<close> is
  \<^verbatim>\<open>match[0]\<close>.
\<close>

definition uspsSpacedPattern :: jsregex where
  "uspsSpacedPattern =
     \<lparr>source = seqs [Rep Digit 4 (Some 4), Rep Space 1 None,
                      Rep Digit 4 (Some 4), Rep Space 1 None,
                      Rep Digit 4 (Some 4), Rep Space 1 None,
                      Rep Digit 4 (Some 4), Rep Space 1 None,
                      Rep Digit 4 (Some 4), Rep Space 1 None,
                      Rep Digit 4 (Some 4), Rep Space 1 None,
                      Rep Digit 2 (Some 2)],
      ignoreCase = False\<rparr>"

definition longNumberPattern :: jsregex where
  "longNumberPattern = \<lparr>source = Rep Digit 20 (Some 22), ignoreCase = False\<rparr>"

text \<open>
  \<^verbatim>\<open>text.replace(rx, '')\<close> for a pattern with the \<^verbatim>\<open>g\<close> flag: every match is
  dropped, the search goes on behind it, and an empty match lets one character
  through. \<^verbatim>\<open>text.replace(/\s+/g, '')\<close> is \<open>removeWhiteSpace\<close>.
\<close>

function replace_empty :: "bool \<Rightarrow> nat \<Rightarrow> regex \<Rightarrow> jsstring \<Rightarrow> jsstring" where
  "replace_empty ic n rx [] = []"
| "replace_empty ic n rx (c # cs) =
     (case ends ic n rx (c # cs) of
        [] \<Rightarrow> c # replace_empty ic n rx cs
      | e # es \<Rightarrow> (if length e < length (c # cs) then replace_empty ic n rx e
                   else c # replace_empty ic n rx cs))"
  by pat_completeness auto
termination
  by (relation "measure (\<lambda>(ic, n, rx, s). length s)") auto

definition removeWhiteSpace :: "jsstring \<Rightarrow> jsstring" where
  "removeWhiteSpace text = replace_empty False (length text) (Rep Space 1 None) text"

text \<open>
  The loop \<^verbatim>\<open>for (const [carrier, pattern] of Object.entries(trackingPatterns))\<close>,
  which returns at the first pattern that matches.
\<close>

fun firstPattern :: "(carrier \<times> jsregex) list \<Rightarrow> jsstring \<Rightarrow> tracking option" where
  "firstPattern [] text = None"
| "firstPattern ((c, pattern) # ps) text =
     (case match text pattern of
        Some m \<Rightarrow> Some \<lparr>carrier = c, number = m\<rparr>
      | None \<Rightarrow> firstPattern ps text)"

text \<open>
  \<^verbatim>\<open>pickTracking(text)\<close>; \<open>None\<close> is \<^verbatim>\<open>null\<close>. The calls of \<^verbatim>\<open>log\<close> only
  write to the console and the debug element.
\<close>

definition pickTracking :: "jsstring \<Rightarrow> tracking option" where
  "pickTracking text =
     (case firstPattern trackingPatterns text of
        Some r \<Rightarrow> Some r
      | None \<Rightarrow>
         (let clean = removeWhiteSpace text in
          case firstPattern trackingPatterns clean of
            Some r \<Rightarrow> Some r
          | None \<Rightarrow>
             (case match text uspsSpacedPattern of
                Some m \<Rightarrow> Some \<lparr>carrier = USPS, number = m\<rparr>
              | None \<Rightarrow>
                 (case match text longNumberPattern of
                    Some m \<Rightarrow> Some \<lparr>carrier = USPS, number = m\<rparr>
                  | None \<Rightarrow> None))))"

text \<open>
  Notions for stating the properties of \<^verbatim>\<open>pickTracking\<close>: the table pattern of
  carrier \<open>c\<close> matches the whole of \<open>s\<close>; some substring of the text satisfies
  \<open>P\<close>; \<open>w\<close> is 20 to 22 digits.
\<close>

definition fullyMatches :: "carrier \<Rightarrow> jsstring \<Rightarrow> bool" where
  "fullyMatches c s =
     (case map_of trackingPatterns c of Some p \<Rightarrow> match s p = Some s | None \<Rightarrow> False)"

definition occursIn :: "(jsstring \<Rightarrow> bool) \<Rightarrow> jsstring \<Rightarrow> bool" where
  "occursIn P text = (\<exists>pre w post. text = pre @ w @ post \<and> P w)"

definition digitRun :: "jsstring \<Rightarrow> bool" where
  "digitRun w = (20 \<le> length w \<and> length w \<le> 22 \<and> list_all isDigit w)"

section \<open>Choosing among detected symbols\<close>

text \<open>
  A symbol returned by the native \<^verbatim>\<open>BarcodeDetector\<close>. The source guards every
  use of \<^verbatim>\<open>rawValue\<close> against a missing value (\<^verbatim>\<open>b.rawValue||''\<close>,
  \<^verbatim>\<open>b.rawValue?.length||0\<close>), so the field is optional here.
\<close>

record barcode =
  rawValue :: "jsstring option"

definition rawText :: "barcode \<Rightarrow> jsstring" where
  "rawText b = (case rawValue b of None \<Rightarrow> [] | Some s \<Rightarrow> s)"

definition rawLength :: "barcode \<Rightarrow> int" where
  "rawLength b = (case rawValue b of None \<Rightarrow> 0 | Some s \<Rightarrow> int (length s))"

text \<open>
  \<^verbatim>\<open>String.prototype.trim\<close> removes white space and line terminators, the code
  units of \<^verbatim>\<open>\s\<close>, from both ends.
\<close>

definition trim :: "jsstring \<Rightarrow> jsstring" where
  "trim s = rev (dropWhile isWhiteSpace (rev (dropWhile isWhiteSpace s)))"

text \<open>
  \<^verbatim>\<open>/^TBA\d+/i\<close> and \<^verbatim>\<open>RegExp.prototype.test\<close>.
\<close>

definition tbaPattern :: jsregex where
  "tbaPattern =
     \<lparr>source = Seq Bol (seqs [One (Chr CHR ''T''), One (Chr CHR ''B''), One (Chr CHR ''A''),
                               Rep Digit 1 None]),
      ignoreCase = True\<rparr>"

definition test :: "jsregex \<Rightarrow> jsstring \<Rightarrow> bool" where
  "test rx s = (match s rx \<noteq> None)"

text \<open>
  \<^verbatim>\<open>Array.prototype.sort\<close> with a comparator is a stable sort; for a consistent
  comparator every stable sort gives the same result, here computed by insertion.
\<close>

fun insert_sorted :: "('a \<Rightarrow> 'a \<Rightarrow> int) \<Rightarrow> 'a \<Rightarrow> 'a list \<Rightarrow> 'a list" where
  "insert_sorted cmp x [] = [x]"
| "insert_sorted cmp x (y # ys) =
     (if cmp x y \<le> 0 then x # y # ys else y # insert_sorted cmp x ys)"

definition array_sort :: "('a \<Rightarrow> 'a \<Rightarrow> int) \<Rightarrow> 'a list \<Rightarrow> 'a list" where
  "array_sort cmp xs = foldr (insert_sorted cmp) xs []"

text \<open>
  The choice of \<^verbatim>\<open>best\<close> made in the native loop of \<^verbatim>\<open>startDecoding\<close> and in
  \<^verbatim>\<open>decodeFromFile\<close> for a non-empty array of symbols: the first symbol whose
  trimmed text passes \<^verbatim>\<open>/^TBA\d+/i\<close>, else the first element of the array sorted
  by descending length of \<^verbatim>\<open>rawValue\<close>. \<open>nativeText\<close> is the text both places
  go on with, \<open>None\<close> when there is no symbol or the trimmed text is empty.
\<close>

definition pickBest :: "barcode list \<Rightarrow> barcode option" where
  "pickBest barcodes =
     (case find (\<lambda>b. test tbaPattern (trim (rawText b))) barcodes of
        Some best \<Rightarrow> Some best
      | None \<Rightarrow>
         (case array_sort (\<lambda>a b. rawLength b - rawLength a) barcodes of
            [] \<Rightarrow> None
          | best # rest \<Rightarrow> Some best))"

definition nativeText :: "barcode list \<Rightarrow> jsstring option" where
  "nativeText barcodes =
     (if barcodes = [] then None
      else (let text = trim (case pickBest barcodes of None \<Rightarrow> [] | Some best \<Rightarrow> rawText best)
            in if text = [] then None else Some text))"

text \<open>
  One run of the \<^verbatim>\<open>loop\<close> that \<^verbatim>\<open>startDecoding\<close> schedules when the native
  detector is used. \<open>detected\<close> is what \<^verbatim>\<open>nativeDetector.detect\<close> gives for the
  frame, \<open>None\<close> when it (or the drawing before it) throws, which the \<^verbatim>\<open>catch\<close>
  ignores; \<open>nextId\<close> is the handle returned by the \<^verbatim>\<open>requestAnimationFrame\<close> call
  at the end. The result is whether the frame emitted, and the updated variables.
\<close>

definition loop :: "scanner \<Rightarrow> barcode list option \<Rightarrow> int \<Rightarrow> nat \<Rightarrow> bool \<times> scanner" where
  "loop st detected now nextId =
     (if \<not> usingNativeDetector st then (False, st)
      else (case (case detected of
                    None \<Rightarrow> (False, st)
                  | Some barcodes \<Rightarrow>
                     (case nativeText barcodes of
                        None \<Rightarrow> (False, st)
                      | Some text \<Rightarrow> maybeEmit st (pickTracking text) now)) of
              (emitted, st') \<Rightarrow> (emitted, st'\<lparr>rafId := Some nextId\<rparr>)))"

section \<open>Decoding an uploaded file (\<^verbatim>\<open>decodeFromFile\<close>)\<close>

text \<open>
  The ZXing hints the source sets. \<^verbatim>\<open>initScanner\<close> gives \<^verbatim>\<open>codeReader\<close> the
  hints \<^verbatim>\<open>POSSIBLE_FORMATS\<close> and \<^verbatim>\<open>TRY_HARDER = true\<close>; the reader created for
  the second try in \<^verbatim>\<open>decodeFromFile\<close> gets \<^verbatim>\<open>TRY_HARDER = true\<close>,
  \<^verbatim>\<open>PURE_BARCODE = false\<close> and \<^verbatim>\<open>ALSO_INVERTED = true\<close>. A hint that is not
  set is \<open>None\<close>.
\<close>

datatype barcode_format =
    CODE_128 | CODE_39 | CODE_93 | CODABAR | ITF | EAN_13 | EAN_8 | UPC_A | UPC_E
  | QR_CODE | DATA_MATRIX

record hints =
  possibleFormats :: "barcode_format list option"
  tryHarder :: "bool option"
  pureBarcode :: "bool option"
  alsoInverted :: "bool option"

definition baselineHints :: hints where
  "baselineHints =
     \<lparr>possibleFormats = Some [CODE_128, CODE_39, CODE_93, CODABAR, ITF, EAN_13, EAN_8,
                               UPC_A, UPC_E, QR_CODE, DATA_MATRIX],
      tryHarder = Some True, pureBarcode = None, alsoInverted = None\<rparr>"

definition permissiveHints :: hints where
  "permissiveHints =
     \<lparr>possibleFormats = None,
      tryHarder = Some True, pureBarcode = Some False, alsoInverted = Some True\<rparr>"

text \<open>
  The two backends are outside the program, so they are arguments of the model.
  \<^verbatim>\<open>decodeFromImageElement\<close> throws or returns a result, which the source tests
  for truthiness; \<^verbatim>\<open>nativeDetector.detect\<close> throws (\<open>None\<close>) or returns a list of
  symbols. Images and canvases are values of an arbitrary type \<open>'s\<close>, the file of
  an arbitrary type \<open>'f\<close>; a step that builds an image from the file may fail
  (\<open>None\<close>). The model records every call of a backend in the order made.
\<close>

datatype decode_outcome = Thrown | Returned "jsstring option"

datatype 's backend_call = NativeDetect 's | ZXingDecode hints 's

record 's decode_result =
  finalResult :: "jsstring option"
  attemptCount :: nat
  calls :: "'s backend_call list"

text \<open>
  The first block of \<^verbatim>\<open>decodeFromFile\<close>: if there is a native detector, it is run
  on the image element made from the file; any exception in the block is caught and
  leaves \<^verbatim>\<open>nativeResult\<close> at \<^verbatim>\<open>null\<close>.
\<close>

definition nativeAttempt ::
  "('s \<Rightarrow> barcode list option) option \<Rightarrow> ('f \<Rightarrow> 's option) \<Rightarrow> 'f
     \<Rightarrow> jsstring option \<times> 's backend_call list" where
  "nativeAttempt nativeDetector createImageElement file =
     (case nativeDetector of
        None \<Rightarrow> (None, [])
      | Some detect \<Rightarrow>
         (case createImageElement file of
            None \<Rightarrow> (None, [])
          | Some img \<Rightarrow>
             (case detect img of
                None \<Rightarrow> (None, [NativeDetect img])
              | Some barcodes \<Rightarrow> (nativeText barcodes, [NativeDetect img]))))"

text \<open>
  The loop over \<^verbatim>\<open>imageVariations\<close>, with \<open>n\<close> the
  value of \<^verbatim>\<open>attemptCount\<close>. A variation that fails to build its image is skipped
  without counting. The reader with the baseline hints is tried; if it throws, a
  new reader with the permissive hints is tried, and an exception there is caught.
  The loop ends as soon as \<^verbatim>\<open>result\<close> is set.
\<close>

fun zxingVariations ::
  "(hints \<Rightarrow> 's \<Rightarrow> decode_outcome) \<Rightarrow> 'f \<Rightarrow> ('f \<Rightarrow> 's option) list \<Rightarrow> nat
     \<Rightarrow> 's decode_result" where
  "zxingVariations zxing file [] n = \<lparr>finalResult = None, attemptCount = n, calls = []\<rparr>"
| "zxingVariations zxing file (variation # rest) n =
     (case variation file of
        None \<Rightarrow> zxingVariations zxing file rest n
      | Some imageElement \<Rightarrow>
         (case zxing baselineHints imageElement of
            Returned (Some text) \<Rightarrow>
              \<lparr>finalResult = Some text, attemptCount = n + 1,
               calls = [ZXingDecode baselineHints imageElement]\<rparr>
          | Returned None \<Rightarrow>
              (let r = zxingVariations zxing file rest (n + 1)
               in r\<lparr>calls := ZXingDecode baselineHints imageElement # calls r\<rparr>)
          | Thrown \<Rightarrow>
              (case zxing permissiveHints imageElement of
                 Returned (Some text) \<Rightarrow>
                   \<lparr>finalResult = Some text, attemptCount = n + 1,
                    calls = [ZXingDecode baselineHints imageElement,
                             ZXingDecode permissiveHints imageElement]\<rparr>
               | _ \<Rightarrow>
                   (let r = zxingVariations zxing file rest (n + 1)
                    in r\<lparr>calls := ZXingDecode baselineHints imageElement
                                    # ZXingDecode permissiveHints imageElement # calls r\<rparr>))))"

text \<open>
  \<^verbatim>\<open>decodeFromFile(file)\<close> up to \<^verbatim>\<open>finalResult = nativeResult || result\<close>. The
  list \<^verbatim>\<open>imageVariations\<close> (21 fixed entries in the source, the image element
  first) is an argument.
\<close>

definition decodeFromFile ::
  "('s \<Rightarrow> barcode list option) option \<Rightarrow> (hints \<Rightarrow> 's \<Rightarrow> decode_outcome)
     \<Rightarrow> ('f \<Rightarrow> 's option) \<Rightarrow> ('f \<Rightarrow> 's option) list \<Rightarrow> 'f \<Rightarrow> 's decode_result" where
  "decodeFromFile nativeDetector zxing createImageElement imageVariations file =
     (case nativeAttempt nativeDetector createImageElement file of
        (Some text, ncalls) \<Rightarrow> \<lparr>finalResult = Some text, attemptCount = 0, calls = ncalls\<rparr>
      | (None, ncalls) \<Rightarrow>
          (let r = zxingVariations zxing file imageVariations 0
           in r\<lparr>calls := ncalls @ calls r\<rparr>))"

text \<open>
  Notions for stating what the loop does: the outcome of the fallback backend on one
  image (baseline hints, then permissive hints if the first call threw), the calls
  this takes, the images the variations yield, and the images up to and including
  the first one on which the fallback backend succeeds.
\<close>

definition fallbackAttempt :: "(hints \<Rightarrow> 's \<Rightarrow> decode_outcome) \<Rightarrow> 's \<Rightarrow> jsstring option" where
  "fallbackAttempt zxing el =
     (case zxing baselineHints el of
        Returned r \<Rightarrow> r
      | Thrown \<Rightarrow> (case zxing permissiveHints el of Returned r \<Rightarrow> r | Thrown \<Rightarrow> None))"

definition fallbackCalls :: "(hints \<Rightarrow> 's \<Rightarrow> decode_outcome) \<Rightarrow> 's \<Rightarrow> 's backend_call list" where
  "fallbackCalls zxing el =
     ZXingDecode baselineHints el
     # (if zxing baselineHints el = Thrown then [ZXingDecode permissiveHints el] else [])"

definition realized :: "'f \<Rightarrow> ('f \<Rightarrow> 's option) list \<Rightarrow> 's list" where
  "realized file variations = List.map_filter (\<lambda>v. v file) variations"

definition tried :: "(hints \<Rightarrow> 's \<Rightarrow> decode_outcome) \<Rightarrow> 's list \<Rightarrow> 's list" where
  "tried zxing els =
     takeWhile (\<lambda>el. fallbackAttempt zxing el = None) els
     @ take 1 (dropWhile (\<lambda>el. fallbackAttempt zxing el = None) els)"

text \<open>
  The orchestration as the specification words it, for comparison: for each variant
  in list order the native backend first, then the fallback backend with the two hint
  profiles, stopping at the first success.
\<close>

fun spec_orchestrate ::
  "('s \<Rightarrow> barcode list option) \<Rightarrow> (hints \<Rightarrow> 's \<Rightarrow> decode_outcome) \<Rightarrow> 's list
     \<Rightarrow> jsstring option" where
  "spec_orchestrate detect zxing [] = None"
| "spec_orchestrate detect zxing (surface # rest) =
     (case (case detect surface of None \<Rightarrow> None | Some barcodes \<Rightarrow> nativeText barcodes) of
        Some text \<Rightarrow> Some text
      | None \<Rightarrow>
         (case fallbackAttempt zxing surface of
            Some text \<Rightarrow> Some text
          | None \<Rightarrow> spec_orchestrate detect zxing rest))"

text \<open>
  A concrete run: the native detector finds a symbol only on the second variation's
  image (image 1), never on the uploaded image (image 0), and ZXing always throws.
\<close>

definition example_detect :: "nat \<Rightarrow> barcode list option" where
  "example_detect s =
     Some (if s = 1 then [\<lparr>rawValue = Some (js ''1Z999AA10123456784'')\<rparr>] else [])"

definition example_zxing :: "hints \<Rightarrow> nat \<Rightarrow> decode_outcome" where
  "example_zxing h s = Thrown"

definition example_image :: "unit \<Rightarrow> nat option" where
  "example_image f = Some 0"

definition example_variations :: "(unit \<Rightarrow> nat option) list" where
  "example_variations = [\<lambda>f. Some 0, \<lambda>f. Some 1]"

text \<open>
  Further runs: a native detector that finds a symbol on the uploaded image, one that
  finds two symbols, and a ZXing that throws except with the permissive hints on
  image 1.
\<close>

definition example_detect_upload :: "nat \<Rightarrow> barcode list option" where
  "example_detect_upload s =
     Some (if s = 0 then [\<lparr>rawValue = Some (js ''1Z999AA10123456784'')\<rparr>] else [])"

definition example_detect_two :: "nat \<Rightarrow> barcode list option" where
  "example_detect_two s =
     Some [\<lparr>rawValue = Some (js ''9999999999999999999999'')\<rparr>,
           \<lparr>rawValue = Some (js ''TBA000000000001'')\<rparr>]"

definition example_zxing_permissive :: "hints \<Rightarrow> nat \<Rightarrow> decode_outcome" where
  "example_zxing_permissive h s =
     (if h = permissiveHints \<and> s = 1 then Returned (Some (js ''1Z999AA10123456784''))
      else Thrown)"

definition example_three_variations :: "(unit \<Rightarrow> nat option) list" where
  "example_three_variations = [\<lambda>f. Some 0, \<lambda>f. Some 1, \<lambda>f. Some 2]"

section \<open>Luminance and the band detector\<close>

text \<open>
  JavaScript numbers are modelled as rationals: the arithmetic of the model is exact,
  and the rounding of IEEE doubles (and of the \<^verbatim>\<open>Float32Array\<close> that holds the
  row scores) is not modelled. \<open>luminance data i\<close> is
  \<^verbatim>\<open>0.299 * data[i] + 0.587 * data[i + 1] + 0.114 * data[i + 2]\<close>.
\<close>

definition luminance :: "byte list \<Rightarrow> nat \<Rightarrow> rat" where
  "luminance data i =
     299 / 1000 * of_nat (unat (data ! i))
     + 587 / 1000 * of_nat (unat (data ! (i + 1)))
     + 114 / 1000 * of_nat (unat (data ! (i + 2)))"











section \<open>Adaptive threshold\<close>






text \<open>
  The brute-force computation the specification compares with: the mean of the
  luminance over the window of half-width \<open>ws\<close> around the pixel, cut at the
  borders, taken by adding up the window's pixels one by one.
\<close>

definition lumAt :: "byte list \<Rightarrow> nat \<Rightarrow> nat \<Rightarrow> nat \<Rightarrow> rat" where
  "lumAt data w x y = luminance data ((y * w + x) * 4)"



text \<open>
  What the integral image holds: the sum of the luminance over the rectangle of the
  first \<open>x\<close> columns and first \<open>y\<close> rows. \<open>integral_inv n k\<close> describes the array
  when \<open>n\<close> rows are complete and \<open>k\<close> entries of the next row are written.
\<close>

definition prefixSum :: "byte list \<Rightarrow> nat \<Rightarrow> nat \<Rightarrow> nat \<Rightarrow> rat" where
  "prefixSum data w x y = (\<Sum>b = 0..<y. \<Sum>a = 0..<x. lumAt data w a b)"



chapter \<open>Properties\<close>

section \<open>The stability gate\<close>

lemma maybeEmit_null:
  "candidate tr = None \<Longrightarrow>
     maybeEmit st tr now = (False, st\<lparr>prevCandidate := None, stableCount := 0\<rparr>)"
  by (simp add: maybeEmit_def)

lemma maybeEmit_keeps_cooldown:
  "\<not> fst (maybeEmit st tr now) \<Longrightarrow>
     lastTracking (snd (maybeEmit st tr now)) = lastTracking st
     \<and> cooldownUntil (snd (maybeEmit st tr now)) = cooldownUntil st"
  by (cases "candidate tr") (auto simp add: maybeEmit_def Let_def STABLE_FRAMES_def)

lemma liveFrames_length: "length (liveFrames st fs) = length fs"
  by (induction fs arbitrary: st) (auto split: prod.splits)

lemma maybeEmit_suppressed:
  assumes "lastTracking st = Some c"
      and "candidate tr = None \<or> candidate tr = Some c"
      and "now \<le> cooldownUntil st"
  shows "\<not> fst (maybeEmit st tr now)"
  using assms by (auto simp add: maybeEmit_def Let_def split: option.splits)

lemma liveFrames_suppressed:
  assumes "lastTracking st = Some c"
      and "\<forall>f \<in> set fs. (candidate (fst f) = None \<or> candidate (fst f) = Some c)
                          \<and> snd f \<le> cooldownUntil st"
  shows "True \<notin> set (liveFrames st fs)"
  using assms
proof (induction fs arbitrary: st)
  case Nil
  then show ?case by simp
next
  case (Cons f fs)
  obtain tr now where f: "f = (tr, now)" by (cases f)
  obtain e st' where m: "maybeEmit st tr now = (e, st')" by (cases "maybeEmit st tr now")
  from Cons.prems f have quiet: "\<not> fst (maybeEmit st tr now)"
    by (intro maybeEmit_suppressed [where c = c]) auto
  with m have e: "\<not> e" by simp
  from maybeEmit_keeps_cooldown [OF quiet] m
  have keep: "lastTracking st' = Some c" "cooldownUntil st' = cooldownUntil st"
    using Cons.prems(1) by simp_all
  have "True \<notin> set (liveFrames st' fs)"
    by (rule Cons.IH) (use keep Cons.prems(2) in auto)
  with e f m show ?case by simp
qed

text \<open>
  C2. For a frame with a non-null candidate \<open>c\<close>, \<^verbatim>\<open>maybeEmit\<close> first makes \<open>c\<close>
  the previous candidate and updates the streak (one more if \<open>c\<close> was the previous
  candidate already, else back to 1) and then emits if and only if the streak has
  reached \<open>STABLE_FRAMES = 3\<close> and \<open>c\<close> differs from the last emitted number or the
  clock has passed \<open>cooldownUntil\<close>. An emission stores \<open>c\<close> as last emitted and
  sets \<open>cooldownUntil\<close> to \<open>now + 900\<close>; without an emission both keep their values;
  no other variable changes. From the initial state, the frames null, A, A, A, A
  with the fifth frame less than 900 ms after the fourth emit exactly once, at the
  fourth frame; so do the frames B, A, A, A, A, the streak of A starting anew after
  B; and in A, A, B, A, A, A the interruption by B delays the emission to the sixth
  frame.
\<close>

theorem maybeEmit_emits_iff_stable_and_fresh:
  "(candidate tr = Some c \<longrightarrow>
      prevCandidate (snd (maybeEmit st tr now)) = Some c
      \<and> stableCount (snd (maybeEmit st tr now))
        = (if prevCandidate st = Some c then stableCount st + 1 else 1)
      \<and> (fst (maybeEmit st tr now) \<longleftrightarrow>
           3 \<le> stableCount (snd (maybeEmit st tr now))
           \<and> (lastTracking st \<noteq> Some c \<or> cooldownUntil st < now))
      \<and> (fst (maybeEmit st tr now) \<longrightarrow>
           lastTracking (snd (maybeEmit st tr now)) = Some c
           \<and> cooldownUntil (snd (maybeEmit st tr now)) = now + 900)
      \<and> (\<not> fst (maybeEmit st tr now) \<longrightarrow>
           lastTracking (snd (maybeEmit st tr now)) = lastTracking st
           \<and> cooldownUntil (snd (maybeEmit st tr now)) = cooldownUntil st)
      \<and> snd (maybeEmit st tr now)
          = st\<lparr>lastTracking := lastTracking (snd (maybeEmit st tr now)),
               prevCandidate := Some c,
               stableCount := stableCount (snd (maybeEmit st tr now)),
               cooldownUntil := cooldownUntil (snd (maybeEmit st tr now))\<rparr>)
   \<and> (t5 - t4 < 900 \<longrightarrow>
        liveFrames initial_scanner
          [(None, t1), (Some \<lparr>carrier = k, number = js ''A''\<rparr>, t2),
           (Some \<lparr>carrier = k, number = js ''A''\<rparr>, t3),
           (Some \<lparr>carrier = k, number = js ''A''\<rparr>, t4),
           (Some \<lparr>carrier = k, number = js ''A''\<rparr>, t5)]
        = [False, False, False, True, False])
   \<and> (t5 - t4 < 900 \<longrightarrow>
        liveFrames initial_scanner
          [(Some \<lparr>carrier = k, number = js ''B''\<rparr>, t1),
           (Some \<lparr>carrier = k, number = js ''A''\<rparr>, t2),
           (Some \<lparr>carrier = k, number = js ''A''\<rparr>, t3),
           (Some \<lparr>carrier = k, number = js ''A''\<rparr>, t4),
           (Some \<lparr>carrier = k, number = js ''A''\<rparr>, t5)]
        = [False, False, False, True, False])
   \<and> liveFrames initial_scanner
          [(Some \<lparr>carrier = k, number = js ''A''\<rparr>, t1),
           (Some \<lparr>carrier = k, number = js ''A''\<rparr>, t2),
           (Some \<lparr>carrier = k, number = js ''B''\<rparr>, t3),
           (Some \<lparr>carrier = k, number = js ''A''\<rparr>, t4),
           (Some \<lparr>carrier = k, number = js ''A''\<rparr>, t5),
           (Some \<lparr>carrier = k, number = js ''A''\<rparr>, t6)]
        = [False, False, False, False, False, True]"
proof (intro conjI impI)
  assume c: "candidate tr = Some c"
  show "prevCandidate (snd (maybeEmit st tr now)) = Some c"
    using c by (auto simp add: maybeEmit_def Let_def)
  show "stableCount (snd (maybeEmit st tr now))
          = (if prevCandidate st = Some c then stableCount st + 1 else 1)"
    using c by (auto simp add: maybeEmit_def Let_def)
  show "fst (maybeEmit st tr now) \<longleftrightarrow>
          3 \<le> stableCount (snd (maybeEmit st tr now))
          \<and> (lastTracking st \<noteq> Some c \<or> cooldownUntil st < now)"
    using c by (auto simp add: maybeEmit_def Let_def STABLE_FRAMES_def)
  show "snd (maybeEmit st tr now)
          = st\<lparr>lastTracking := lastTracking (snd (maybeEmit st tr now)),
               prevCandidate := Some c,
               stableCount := stableCount (snd (maybeEmit st tr now)),
               cooldownUntil := cooldownUntil (snd (maybeEmit st tr now))\<rparr>"
    using c by (auto simp add: maybeEmit_def Let_def)
  {
    assume "fst (maybeEmit st tr now)"
    then show "lastTracking (snd (maybeEmit st tr now)) = Some c"
      and "cooldownUntil (snd (maybeEmit st tr now)) = now + 900"
      using c by (auto simp add: maybeEmit_def Let_def COOLDOWN_MS_def split: if_splits)
  }
  {
    assume "\<not> fst (maybeEmit st tr now)"
    then show "lastTracking (snd (maybeEmit st tr now)) = lastTracking st"
      and "cooldownUntil (snd (maybeEmit st tr now)) = cooldownUntil st"
      using maybeEmit_keeps_cooldown [of st tr now] by simp_all
  }
next
  assume "t5 - t4 < 900"
  then show "liveFrames initial_scanner
          [(None, t1), (Some \<lparr>carrier = k, number = js ''A''\<rparr>, t2),
           (Some \<lparr>carrier = k, number = js ''A''\<rparr>, t3),
           (Some \<lparr>carrier = k, number = js ''A''\<rparr>, t4),
           (Some \<lparr>carrier = k, number = js ''A''\<rparr>, t5)]
        = [False, False, False, True, False]"
    by (simp add: maybeEmit_def candidate_def initial_scanner_def js_def Let_def
        STABLE_FRAMES_def COOLDOWN_MS_def)
next
  assume "t5 - t4 < 900"
  then show "liveFrames initial_scanner
          [(Some \<lparr>carrier = k, number = js ''B''\<rparr>, t1),
           (Some \<lparr>carrier = k, number = js ''A''\<rparr>, t2),
           (Some \<lparr>carrier = k, number = js ''A''\<rparr>, t3),
           (Some \<lparr>carrier = k, number = js ''A''\<rparr>, t4),
           (Some \<lparr>carrier = k, number = js ''A''\<rparr>, t5)]
        = [False, False, False, True, False]"
    by (simp add: maybeEmit_def candidate_def initial_scanner_def js_def Let_def
        STABLE_FRAMES_def COOLDOWN_MS_def)
next
  show "liveFrames initial_scanner
          [(Some \<lparr>carrier = k, number = js ''A''\<rparr>, t1),
           (Some \<lparr>carrier = k, number = js ''A''\<rparr>, t2),
           (Some \<lparr>carrier = k, number = js ''B''\<rparr>, t3),
           (Some \<lparr>carrier = k, number = js ''A''\<rparr>, t4),
           (Some \<lparr>carrier = k, number = js ''A''\<rparr>, t5),
           (Some \<lparr>carrier = k, number = js ''A''\<rparr>, t6)]
        = [False, False, False, False, False, True]"
    by (simp add: maybeEmit_def candidate_def initial_scanner_def js_def Let_def
        STABLE_FRAMES_def COOLDOWN_MS_def)
qed

theorem maybeEmit_emits_iff_stable_and_fresh_witness:
  "candidate (Some \<lparr>carrier = UPS, number = js ''A''\<rparr>) = Some (js ''A'')
   \<and> maybeEmit (initial_scanner\<lparr>prevCandidate := Some (js ''A''), stableCount := 2\<rparr>)
            (Some \<lparr>carrier = UPS, number = js ''A''\<rparr>) 1000
       = (True, initial_scanner\<lparr>lastTracking := Some (js ''A''), prevCandidate := Some (js ''A''),
                                 stableCount := 3, cooldownUntil := 1900\<rparr>)
   \<and> (1400 - 1000 < (900::int))
   \<and> liveFrames initial_scanner
          [(None, 0), (Some \<lparr>carrier = UPS, number = js ''A''\<rparr>, 200),
           (Some \<lparr>carrier = UPS, number = js ''A''\<rparr>, 600),
           (Some \<lparr>carrier = UPS, number = js ''A''\<rparr>, 1000),
           (Some \<lparr>carrier = UPS, number = js ''A''\<rparr>, 1400)]
        = [False, False, False, True, False]
   \<and> liveFrames initial_scanner
          [(Some \<lparr>carrier = UPS, number = js ''B''\<rparr>, 0),
           (Some \<lparr>carrier = UPS, number = js ''A''\<rparr>, 200),
           (Some \<lparr>carrier = UPS, number = js ''A''\<rparr>, 600),
           (Some \<lparr>carrier = UPS, number = js ''A''\<rparr>, 1000),
           (Some \<lparr>carrier = UPS, number = js ''A''\<rparr>, 1400)]
        = [False, False, False, True, False]"
proof -
  let ?st = "initial_scanner\<lparr>prevCandidate := Some (js ''A''), stableCount := 2\<rparr>"
  let ?tr = "Some \<lparr>carrier = UPS, number = js ''A''\<rparr>"
  have c: "candidate ?tr = Some (js ''A'')"
    by (simp add: candidate_def js_def)
  have i: "prevCandidate ?st = Some (js ''A'')" "stableCount ?st = 2"
    "lastTracking ?st = None" by (simp_all add: initial_scanner_def)
  have t: "1400 - 1000 < (900::int)" by simp
  note inst = maybeEmit_emits_iff_stable_and_fresh
    [of ?tr "js ''A''" ?st 1000 1400 1000 0 UPS 200 600]
  from inst c have n: "stableCount (snd (maybeEmit ?st ?tr 1000)) = 3"
    using i by simp
  from inst c n i have e: "fst (maybeEmit ?st ?tr 1000)" by simp
  from inst c e have l: "lastTracking (snd (maybeEmit ?st ?tr 1000)) = Some (js ''A'')"
    "cooldownUntil (snd (maybeEmit ?st ?tr 1000)) = 1900" by simp_all
  from inst c have "snd (maybeEmit ?st ?tr 1000)
          = ?st\<lparr>lastTracking := lastTracking (snd (maybeEmit ?st ?tr 1000)),
               prevCandidate := Some (js ''A''),
               stableCount := stableCount (snd (maybeEmit ?st ?tr 1000)),
               cooldownUntil := cooldownUntil (snd (maybeEmit ?st ?tr 1000))\<rparr>"
    by blast
  with n l have s: "snd (maybeEmit ?st ?tr 1000)
      = initial_scanner\<lparr>lastTracking := Some (js ''A''), prevCandidate := Some (js ''A''),
                                 stableCount := 3, cooldownUntil := 1900\<rparr>"
    by (simp add: initial_scanner_def)
  from e s have m: "maybeEmit ?st ?tr 1000
       = (True, initial_scanner\<lparr>lastTracking := Some (js ''A''), prevCandidate := Some (js ''A''),
                                 stableCount := 3, cooldownUntil := 1900\<rparr>)"
    by (metis prod.collapse)
  from inst t have "liveFrames initial_scanner
          [(None, 0), (Some \<lparr>carrier = UPS, number = js ''A''\<rparr>, 200),
           (Some \<lparr>carrier = UPS, number = js ''A''\<rparr>, 600),
           (Some \<lparr>carrier = UPS, number = js ''A''\<rparr>, 1000),
           (Some \<lparr>carrier = UPS, number = js ''A''\<rparr>, 1400)]
        = [False, False, False, True, False]"
    and "liveFrames initial_scanner
          [(Some \<lparr>carrier = UPS, number = js ''B''\<rparr>, 0),
           (Some \<lparr>carrier = UPS, number = js ''A''\<rparr>, 200),
           (Some \<lparr>carrier = UPS, number = js ''A''\<rparr>, 600),
           (Some \<lparr>carrier = UPS, number = js ''A''\<rparr>, 1000),
           (Some \<lparr>carrier = UPS, number = js ''A''\<rparr>, 1400)]
        = [False, False, False, True, False]"
    by blast+
  with c m t show ?thesis by simp
qed

text \<open>
  C10. A frame without a candidate resets only \<open>prevCandidate\<close> and \<open>stableCount\<close>
  and does not emit; \<open>lastTracking\<close> and \<open>cooldownUntil\<close> keep their values. So
  while the clock has not passed \<open>cooldownUntil\<close>, no sequence of frames that are
  empty or carry the last emitted number emits: empty frames in between do not lift
  the suppression.
\<close>

theorem maybeEmit_null_frame_keeps_cooldown:
  "(candidate tr = None \<longrightarrow>
      maybeEmit st tr now = (False, st\<lparr>prevCandidate := None, stableCount := 0\<rparr>)
      \<and> lastTracking (snd (maybeEmit st tr now)) = lastTracking st
      \<and> cooldownUntil (snd (maybeEmit st tr now)) = cooldownUntil st)
   \<and> (lastTracking st = Some c
        \<and> (\<forall>f \<in> set fs. (candidate (fst f) = None \<or> candidate (fst f) = Some c)
                          \<and> snd f \<le> cooldownUntil st)
      \<longrightarrow> True \<notin> set (liveFrames st fs))"
  using maybeEmit_null [of tr st now] liveFrames_suppressed [of st c fs]
  by auto

theorem maybeEmit_null_frame_keeps_cooldown_witness:
  "candidate None = None
   \<and> maybeEmit (initial_scanner\<lparr>lastTracking := Some (js ''A''), prevCandidate := Some (js ''A''),
                                 stableCount := 3, cooldownUntil := 1900\<rparr>) None 1200
       = (False, initial_scanner\<lparr>lastTracking := Some (js ''A''), prevCandidate := None,
                                 stableCount := 0, cooldownUntil := 1900\<rparr>)
   \<and> liveFrames (initial_scanner\<lparr>lastTracking := Some (js ''A''), prevCandidate := Some (js ''A''),
                                 stableCount := 3, cooldownUntil := 1900\<rparr>)
        [(None, 1200), (Some \<lparr>carrier = UPS, number = js ''A''\<rparr>, 1300),
         (Some \<lparr>carrier = UPS, number = js ''A''\<rparr>, 1400),
         (Some \<lparr>carrier = UPS, number = js ''A''\<rparr>, 1500)]
       = [False, False, False, False]"
proof -
  let ?st = "initial_scanner\<lparr>lastTracking := Some (js ''A''), prevCandidate := Some (js ''A''),
                             stableCount := 3, cooldownUntil := 1900\<rparr>"
  let ?fs = "[(None, 1200), (Some \<lparr>carrier = UPS, number = js ''A''\<rparr>, 1300),
         (Some \<lparr>carrier = UPS, number = js ''A''\<rparr>, 1400),
         (Some \<lparr>carrier = UPS, number = js ''A''\<rparr>, 1500)]"
  have n: "candidate None = None" by (simp add: candidate_def)
  have l: "lastTracking ?st = Some (js ''A'')" by simp
  have q: "\<forall>f \<in> set ?fs. (candidate (fst f) = None \<or> candidate (fst f) = Some (js ''A''))
                          \<and> snd f \<le> cooldownUntil ?st"
    by (simp add: candidate_def js_def)
  from maybeEmit_null_frame_keeps_cooldown [of None ?st 1200 "js ''A''" ?fs] n l q
  have a: "maybeEmit ?st None 1200 = (False, ?st\<lparr>prevCandidate := None, stableCount := 0\<rparr>)"
    and b: "True \<notin> set (liveFrames ?st ?fs)"
    by blast+
  have "length (liveFrames ?st ?fs) = 4"
    by (simp only: liveFrames_length) simp
  then obtain e1 e2 e3 e4 where es: "liveFrames ?st ?fs = [e1, e2, e3, e4]"
    by (auto simp add: length_Suc_conv numeral_eq_Suc)
  from b have "liveFrames ?st ?fs = [False, False, False, False]"
    unfolding es by simp
  with n a show ?thesis by (simp add: initial_scanner_def)
qed

text \<open>
  C6. \<^verbatim>\<open>stopDecoding\<close> assigns none of \<open>lastTracking\<close>, \<open>prevCandidate\<close>,
  \<open>stableCount\<close> and \<open>cooldownUntil\<close>: all four keep the values they had when the
  session was stopped.
\<close>

theorem stopDecoding_keeps_stability_state:
  "lastTracking (stopDecoding thr st) = lastTracking st
   \<and> prevCandidate (stopDecoding thr st) = prevCandidate st
   \<and> stableCount (stopDecoding thr st) = stableCount st
   \<and> cooldownUntil (stopDecoding thr st) = cooldownUntil st"
  by (simp add: stopDecoding_def Let_def split: option.splits)

text \<open>
  A running session reads A at the times 200, 600 and 1000 and emits it at 1000. The
  session is stopped. All four variables are as they were: the candidate, the streak
  of 3, the last emitted number and the cooldown. In the next session a first frame
  that reads A at time 1500 is still suppressed by the old cooldown, and a first frame
  that reads A at time 5000 emits at once, on the streak carried over.
\<close>

theorem stopDecoding_resets_counterexample:
  "snd (maybeEmit (snd (maybeEmit (snd (maybeEmit example_session
           (Some \<lparr>carrier = UPS, number = js ''A''\<rparr>) 200))
           (Some \<lparr>carrier = UPS, number = js ''A''\<rparr>) 600))
           (Some \<lparr>carrier = UPS, number = js ''A''\<rparr>) 1000) = example_emitted
   \<and> prevCandidate (stopDecoding False example_emitted) = Some (js ''A'')
   \<and> stableCount (stopDecoding False example_emitted) = 3
   \<and> lastTracking (stopDecoding False example_emitted) = Some (js ''A'')
   \<and> cooldownUntil (stopDecoding False example_emitted) = 1900
   \<and> \<not> fst (maybeEmit (stopDecoding False example_emitted)
              (Some \<lparr>carrier = UPS, number = js ''A''\<rparr>) 1500)
   \<and> fst (maybeEmit (stopDecoding False example_emitted)
            (Some \<lparr>carrier = UPS, number = js ''A''\<rparr>) 5000)"
  by (simp add: example_session_def example_emitted_def initial_scanner_def maybeEmit_def
      candidate_def stopDecoding_def Let_def js_def STABLE_FRAMES_def COOLDOWN_MS_def)

section \<open>The invert transform\<close>

lemma invert_loop_length [simp]: "length (invert_loop i d) = length d"
proof (induction i d rule: invert_loop.induct)
  case (1 i d)
  show ?case
  proof (cases "i < length d")
    case True
    with "1" show ?thesis by (subst invert_loop.simps) simp
  next
    case False
    then show ?thesis by (subst invert_loop.simps) simp
  qed
qed

lemma invert_loop_nth:
  "j < length d \<Longrightarrow>
     invert_loop i d ! j = (if i \<le> j \<and> (j - i) mod 4 \<noteq> 3 then 255 - d ! j else d ! j)"
proof (induction i d rule: invert_loop.induct)
  case (1 i d)
  show ?case
  proof (cases "i < length d")
    case False
    with "1.prems" show ?thesis by (subst invert_loop.simps) simp
  next
    case True
    let ?d = "d[i := 255 - d ! i, i + 1 := 255 - d ! (i + 1), i + 2 := 255 - d ! (i + 2)]"
    have step: "invert_loop i d = invert_loop (i + 4) ?d"
      using True by (subst invert_loop.simps) simp
    have ih: "invert_loop (i + 4) ?d ! j =
        (if i + 4 \<le> j \<and> (j - (i + 4)) mod 4 \<noteq> 3 then 255 - ?d ! j else ?d ! j)"
      using "1.IH" [OF True] "1.prems" by simp
    have upd: "?d ! j = (if j = i \<or> j = i + 1 \<or> j = i + 2 then 255 - d ! j else d ! j)"
      using "1.prems" by (auto simp add: nth_list_update)
    consider "j < i" | "j = i" | "j = i + 1" | "j = i + 2" | "j = i + 3" | "i + 4 \<le> j"
      by linarith
    then show ?thesis
    proof cases
      case 6
      then have "4 \<le> j - i" and "j - (i + 4) = j - i - 4"
        by simp_all
      then have "(j - (i + 4)) mod 4 = (j - i) mod 4"
        by (simp add: le_mod_geq)
      with 6 step ih upd show ?thesis by simp
    qed (use step ih upd in \<open>simp_all add: nth_list_update\<close>)
  qed
qed

lemma byte_double_complement: "255 - (255 - x) = (x::byte)"
  by simp

lemma invert_loop_involution: "invert_loop 0 (invert_loop 0 d) = d"
  by (rule nth_equalityI) (simp_all add: invert_loop_nth)

text \<open>
  C9. Inverting maps every R, G and B byte to 255 minus its value and leaves every
  alpha byte as it is, and inverting twice gives back the surface, byte for byte.
\<close>

theorem createInvertedCanvas_involution:
  "createInvertedCanvas (createInvertedCanvas S) = S
   \<and> (\<forall>j < length (pixels S).
        pixels (createInvertedCanvas S) ! j
          = (if j mod 4 = 3 then pixels S ! j else 255 - pixels S ! j))"
  by (simp add: createInvertedCanvas_def invert_loop_involution invert_loop_nth)

theorem createInvertedCanvas_involution_witness:
  "createInvertedCanvas (createInvertedCanvas
       \<lparr>width = 1, height = 2, pixels = [10, 20, 30, 40, 0, 255, 128, 7]\<rparr>)
     = \<lparr>width = 1, height = 2, pixels = [10, 20, 30, 40, 0, 255, 128, 7]\<rparr>
   \<and> (5::nat) < length (pixels \<lparr>width = 1, height = 2, pixels = [10, 20, 30, 40, 0, 255, 128, 7]\<rparr>)
   \<and> pixels (createInvertedCanvas
       \<lparr>width = 1, height = 2, pixels = [10, 20, 30, 40, 0, 255, 128, 7]\<rparr>) ! 5 = 0
   \<and> pixels (createInvertedCanvas
       \<lparr>width = 1, height = 2, pixels = [10, 20, 30, 40, 0, 255, 128, 7]\<rparr>) ! 7 = 7"
proof -
  let ?S = "\<lparr>width = 1, height = 2, pixels = [10, 20, 30, 40, 0, 255, 128, 7 :: byte]\<rparr>"
  have l5: "(5::nat) < length (pixels ?S)" and l7: "(7::nat) < length (pixels ?S)"
    by simp_all
  from createInvertedCanvas_involution [of ?S]
  have inv: "createInvertedCanvas (createInvertedCanvas ?S) = ?S"
    and nth: "\<forall>j < length (pixels ?S). pixels (createInvertedCanvas ?S) ! j
                = (if j mod 4 = 3 then pixels ?S ! j else 255 - pixels ?S ! j)"
    by blast+
  from nth l5 have "pixels (createInvertedCanvas ?S) ! 5
                = (if (5::nat) mod 4 = 3 then pixels ?S ! 5 else 255 - pixels ?S ! 5)"
    by blast
  then have p5: "pixels (createInvertedCanvas ?S) ! 5 = 0" by simp
  from nth l7 have "pixels (createInvertedCanvas ?S) ! 7
                = (if (7::nat) mod 4 = 3 then pixels ?S ! 7 else 255 - pixels ?S ! 7)"
    by blast
  then have p7: "pixels (createInvertedCanvas ?S) ! 7 = 7" by simp
  from inv l5 p5 p7 show ?thesis by blast
qed

section \<open>The regular expression matcher\<close>

lemma all_take_iff:
  "j \<le> length r \<Longrightarrow> list_all P (take j r) \<longleftrightarrow> j \<le> length (takeWhile P r)"
proof (induction r arbitrary: j)
  case Nil
  then show ?case by simp
next
  case (Cons c cs)
  then show ?case by (cases j) auto
qed

lemma prefix_all_iff:
  "(\<exists>w. r = w @ r' \<and> length w = j \<and> list_all P w)
     \<longleftrightarrow> (j \<le> length (takeWhile P r) \<and> r' = drop j r)"
proof
  assume "\<exists>w. r = w @ r' \<and> length w = j \<and> list_all P w"
  then obtain w where w: "r = w @ r'" "length w = j" "list_all P w" by blast
  then have "take j r = w" "j \<le> length r" by simp_all
  with w all_take_iff [of j r P] show "j \<le> length (takeWhile P r) \<and> r' = drop j r"
    by simp
next
  assume a: "j \<le> length (takeWhile P r) \<and> r' = drop j r"
  have "length (takeWhile P r) \<le> length r" by (rule length_takeWhile_le)
  with a have j: "j \<le> length r" by simp
  with a all_take_iff [of j r P] have "list_all P (take j r)" by simp
  with a j have "r = take j r @ r' \<and> length (take j r) = j \<and> list_all P (take j r)"
    by simp
  then show "\<exists>w. r = w @ r' \<and> length w = j \<and> list_all P w" by blast
qed

lemma ends_Rep_set:
  "set (ends ic n (Rep a lo hi) r) =
     {r'. \<exists>j. r' = drop j r \<and> lo \<le> j \<and> j \<le> length (takeWhile (matchesAtom ic a) r)
               \<and> (case hi of None \<Rightarrow> True | Some h \<Rightarrow> j \<le> h)}"
proof -
  define k where "k = length (takeWhile (matchesAtom ic a) r)"
  define m where "m = (case hi of None \<Rightarrow> k | Some h \<Rightarrow> min k h)"
  have e: "ends ic n (Rep a lo hi) r
             = (if m < lo then [] else map (\<lambda>j. drop j r) (rev [lo..<Suc m]))"
    unfolding m_def k_def by (simp add: Let_def del: upt_Suc)
  have "set (ends ic n (Rep a lo hi) r) = (\<lambda>j. drop j r) ` {j. lo \<le> j \<and> j \<le> m}"
    unfolding e by (auto simp add: less_Suc_eq_le simp del: upt_Suc)
  also have "{j. lo \<le> j \<and> j \<le> m}
      = {j. lo \<le> j \<and> j \<le> k \<and> (case hi of None \<Rightarrow> True | Some h \<Rightarrow> j \<le> h)}"
    by (cases hi) (auto simp add: m_def)
  finally show ?thesis unfolding k_def by auto
qed

lemma ends_correct:
  "anchor_free rx \<Longrightarrow>
     set (ends ic n rx r) = {r'. \<exists>w. r = w @ r' \<and> accepts ic rx w}"
proof (induction rx arbitrary: r)
  case (One a)
  show ?case
  proof (cases r)
    case Nil
    then show ?thesis by auto
  next
    case (Cons c cs)
    then show ?thesis by auto
  qed
next
  case (Rep a lo hi)
  have "{r'. \<exists>w. r = w @ r' \<and> accepts ic (Rep a lo hi) w}
      = {r'. \<exists>j. (\<exists>w. r = w @ r' \<and> length w = j \<and> list_all (matchesAtom ic a) w)
                  \<and> lo \<le> j \<and> (case hi of None \<Rightarrow> True | Some h \<Rightarrow> j \<le> h)}"
    by auto
  also have "\<dots> = set (ends ic n (Rep a lo hi) r)"
    unfolding ends_Rep_set prefix_all_iff by auto
  finally show ?case by simp
next
  case (Seq p q)
  then have p: "\<And>r. set (ends ic n p r) = {r'. \<exists>w. r = w @ r' \<and> accepts ic p w}"
    and q: "\<And>r. set (ends ic n q r) = {r'. \<exists>w. r = w @ r' \<and> accepts ic q w}"
    by simp_all
  show ?case
  proof (intro set_eqI iffI)
    fix r' assume "r' \<in> set (ends ic n (Seq p q) r)"
    then obtain r1 where "r1 \<in> set (ends ic n p r)" "r' \<in> set (ends ic n q r1)"
      by auto
    then obtain u v where "r = u @ r1" "accepts ic p u" "r1 = v @ r'" "accepts ic q v"
      unfolding p q by blast
    then have "r = (u @ v) @ r' \<and> accepts ic (Seq p q) (u @ v)" by auto
    then show "r' \<in> {r'. \<exists>w. r = w @ r' \<and> accepts ic (Seq p q) w}" by blast
  next
    fix r' assume "r' \<in> {r'. \<exists>w. r = w @ r' \<and> accepts ic (Seq p q) w}"
    then obtain u v where "r = (u @ v) @ r'" "accepts ic p u" "accepts ic q v" by auto
    then have "v @ r' \<in> set (ends ic n p r)" "r' \<in> set (ends ic n q (v @ r'))"
      unfolding p q by auto
    then show "r' \<in> set (ends ic n (Seq p q) r)" by auto
  qed
next
  case (Alt p q)
  then show ?case by auto
qed simp_all

lemma exec_from_None:
  assumes "anchor_free rx"
  shows "exec_from ic n rx s = None
           \<longleftrightarrow> \<not> (\<exists>pre w post. s = pre @ w @ post \<and> accepts ic rx w)"
proof (induction s)
  case Nil
  have "(ends ic n rx [] = []) \<longleftrightarrow> \<not> accepts ic rx []"
    using ends_correct [OF assms, of ic n "[]"] by (auto simp add: set_empty [symmetric] simp del: set_empty)
  then show ?case by (auto split: list.splits)
next
  case (Cons c cs)
  have here: "(ends ic n rx (c # cs) = []) \<longleftrightarrow> \<not> (\<exists>w post. c # cs = w @ post \<and> accepts ic rx w)"
    using ends_correct [OF assms, of ic n "c # cs"]
    by (auto simp add: set_empty [symmetric] simp del: set_empty)
  have split: "(\<exists>pre w post. c # cs = pre @ w @ post \<and> accepts ic rx w)
      \<longleftrightarrow> (\<exists>w post. c # cs = w @ post \<and> accepts ic rx w)
          \<or> (\<exists>pre w post. cs = pre @ w @ post \<and> accepts ic rx w)"
  proof
    assume "\<exists>pre w post. c # cs = pre @ w @ post \<and> accepts ic rx w"
    then obtain pre w post where h: "c # cs = pre @ w @ post" "accepts ic rx w" by blast
    show "(\<exists>w post. c # cs = w @ post \<and> accepts ic rx w)
          \<or> (\<exists>pre w post. cs = pre @ w @ post \<and> accepts ic rx w)"
    proof (cases pre)
      case Nil
      with h show ?thesis by auto
    next
      case (Cons x xs)
      with h have "cs = xs @ w @ post" by simp
      with h show ?thesis by blast
    qed
  next
    assume "(\<exists>w post. c # cs = w @ post \<and> accepts ic rx w)
          \<or> (\<exists>pre w post. cs = pre @ w @ post \<and> accepts ic rx w)"
    then show "\<exists>pre w post. c # cs = pre @ w @ post \<and> accepts ic rx w"
    proof
      assume "\<exists>w post. c # cs = w @ post \<and> accepts ic rx w"
      then obtain w post where "c # cs = [] @ w @ post" "accepts ic rx w" by auto
      then show ?thesis by blast
    next
      assume "\<exists>pre w post. cs = pre @ w @ post \<and> accepts ic rx w"
      then obtain pre w post where "c # cs = (c # pre) @ w @ post" "accepts ic rx w" by auto
      then show ?thesis by blast
    qed
  qed
  show ?case
  proof (cases "ends ic n rx (c # cs)")
    case Nil
    with here Cons.IH split show ?thesis by simp
  next
    case (Cons e es)
    with here split show ?thesis by simp
  qed
qed

lemma exec_from_Some:
  assumes "anchor_free rx" and "exec_from ic n rx s = Some m"
  shows "accepts ic rx m \<and> (\<exists>pre post. s = pre @ m @ post)"
  using assms(2)
proof (induction s)
  case Nil
  then have ne: "ends ic n rx [] \<noteq> []" and m: "m = []" by (auto split: list.splits)
  from ne obtain e where "e \<in> set (ends ic n rx [])" by (cases "ends ic n rx []") auto
  then have "accepts ic rx []" using ends_correct [OF assms(1), of ic n "[]"] by auto
  with m show ?case by simp
next
  case (Cons c cs)
  show ?case
  proof (cases "ends ic n rx (c # cs)")
    case Nil
    with Cons.prems have "exec_from ic n rx cs = Some m" by simp
    from Cons.IH [OF this] obtain pre post where "accepts ic rx m" "cs = pre @ m @ post"
      by blast
    then have "accepts ic rx m \<and> c # cs = (c # pre) @ m @ post" by simp
    then show ?thesis by blast
  next
    case (Cons e es)
    then have "e \<in> set (ends ic n rx (c # cs))" by simp
    then obtain w where w: "c # cs = w @ e" "accepts ic rx w"
      using ends_correct [OF assms(1), of ic n "c # cs"] by auto
    from Cons Cons.prems have "m = take (length (c # cs) - length e) (c # cs)" by simp
    with w have "m = w" by simp
    with w have "accepts ic rx m \<and> c # cs = [] @ m @ e" by simp
    then show ?thesis by blast
  qed
qed

lemma matchesAtom_False: "matchesAtom False a = inClass a"
  by (rule ext) (simp add: matchesAtom_def)

lemma inClass_Digit: "inClass Digit = isDigit"
  by (rule ext) simp

lemma inClass_Space: "inClass Space = isWhiteSpace"
  by (rule ext) simp

lemmas atom_plain = matchesAtom_False inClass_Digit inClass_Space

lemma ends_eol_terminated:
  "eol_terminated q \<Longrightarrow> e \<in> set (ends ic n q r) \<Longrightarrow> e = []"
proof (induction q arbitrary: r)
  case Eol
  then show ?case by (simp split: if_splits)
next
  case (Seq p q)
  then show ?case by auto
qed simp_all

lemma exec_from_Bol_short:
  "length r < n \<Longrightarrow> exec_from ic n (Seq Bol q) r = None"
  by (induction r) simp_all

lemma exec_from_anchored:
  assumes "eol_terminated q"
  shows "exec_from ic (length t) (Seq Bol q) t
           = (if ends ic (length t) q t = [] then None else Some t)"
proof (cases "ends ic (length t) q t")
  case Nil
  then show ?thesis by (cases t) (simp_all add: exec_from_Bol_short)
next
  case (Cons e es)
  then have "e \<in> set (ends ic (length t) q t)" by simp
  with assms have "e = []" by (rule ends_eol_terminated)
  with Cons show ?thesis by (cases t) simp_all
qed

lemma ends_Rep_head:
  "ends ic n (Rep a lo None) r =
     (let k = length (takeWhile (matchesAtom ic a) r)
      in if k < lo then [] else dropWhile (matchesAtom ic a) r # map (\<lambda>j. drop j r) (rev [lo..<k]))"
  by (simp add: Let_def dropWhile_eq_drop)

lemma ends_Space_none:
  "\<not> isWhiteSpace c \<Longrightarrow> ends False n (Rep Space 1 None) (c # cs) = []"
  by (simp add: atom_plain)

lemma ends_Space_some:
  "isWhiteSpace c \<Longrightarrow>
     \<exists>es. ends False n (Rep Space 1 None) (c # cs) = dropWhile isWhiteSpace cs # es"
  by (simp add: ends_Rep_head atom_plain Let_def del: ends.simps)

lemma filter_dropWhile_ws:
  "filter (\<lambda>c. \<not> isWhiteSpace c) (dropWhile isWhiteSpace cs)
     = filter (\<lambda>c. \<not> isWhiteSpace c) cs"
  by (induction cs) simp_all

lemma replace_empty_Space:
  "replace_empty False n (Rep Space 1 None) s = filter (\<lambda>c. \<not> isWhiteSpace c) s"
proof (induction s rule: length_induct)
  case (1 s)
  note IH = "1" [rule_format]
  show ?case
  proof (cases s)
    case Nil
    then show ?thesis by simp
  next
    case (Cons c cs)
    show ?thesis
    proof (cases "isWhiteSpace c")
      case False
      have "replace_empty False n (Rep Space 1 None) cs = filter (\<lambda>c. \<not> isWhiteSpace c) cs"
        by (rule IH) (simp add: Cons)
      then show ?thesis
        unfolding Cons using False
        by (simp only: replace_empty.simps ends_Space_none [OF False] list.case filter.simps
            simp_thms if_True)
    next
      case True
      let ?d = "dropWhile isWhiteSpace cs"
      from ends_Space_some [OF True] obtain es
        where e: "ends False n (Rep Space 1 None) (c # cs) = ?d # es" by blast
      have len: "length ?d < length (c # cs)"
        using length_dropWhile_le [of isWhiteSpace cs] by simp
      have "replace_empty False n (Rep Space 1 None) ?d = filter (\<lambda>c. \<not> isWhiteSpace c) ?d"
        by (rule IH) (use len Cons in simp)
      then have "replace_empty False n (Rep Space 1 None) ?d = filter (\<lambda>c. \<not> isWhiteSpace c) cs"
        by (simp only: filter_dropWhile_ws)
      then show ?thesis
        unfolding Cons using True len
        by (simp only: replace_empty.simps e list.case if_True if_False filter.simps simp_thms)
    qed
  qed
qed

lemma removeWhiteSpace_filter:
  "removeWhiteSpace text = filter (\<lambda>c. \<not> isWhiteSpace c) text"
  unfolding removeWhiteSpace_def by (rule replace_empty_Space)

lemma accepts_group_step:
  "accepts False (Seq (Rep Digit k (Some k)) (Seq (Rep Space 1 None) R)) w
     \<longleftrightarrow> (\<exists>g sep rest. w = g @ sep @ rest \<and> length g = k \<and> list_all isDigit g
            \<and> sep \<noteq> [] \<and> list_all isWhiteSpace sep \<and> accepts False R rest)"
proof
  assume "accepts False (Seq (Rep Digit k (Some k)) (Seq (Rep Space 1 None) R)) w"
  then obtain g v sep rest where "w = g @ v" "length g = k" "list_all isDigit g"
    "v = sep @ rest" "1 \<le> length sep" "list_all isWhiteSpace sep" "accepts False R rest"
    by (auto simp add: atom_plain)
  then have "w = g @ sep @ rest \<and> length g = k \<and> list_all isDigit g
            \<and> sep \<noteq> [] \<and> list_all isWhiteSpace sep \<and> accepts False R rest"
    by auto
  then show "\<exists>g sep rest. w = g @ sep @ rest \<and> length g = k \<and> list_all isDigit g
            \<and> sep \<noteq> [] \<and> list_all isWhiteSpace sep \<and> accepts False R rest"
    by blast
next
  assume "\<exists>g sep rest. w = g @ sep @ rest \<and> length g = k \<and> list_all isDigit g
            \<and> sep \<noteq> [] \<and> list_all isWhiteSpace sep \<and> accepts False R rest"
  then obtain g sep rest where h: "w = g @ sep @ rest" "length g = k" "list_all isDigit g"
    "sep \<noteq> []" "list_all isWhiteSpace sep" "accepts False R rest"
    by blast
  from h(4) have "1 \<le> length sep" by (cases sep) simp_all
  with h have "accepts False (Rep Digit k (Some k)) g"
    and "accepts False (Seq (Rep Space 1 None) R) (sep @ rest)"
    by (auto simp add: atom_plain)
  with h(1) show "accepts False (Seq (Rep Digit k (Some k)) (Seq (Rep Space 1 None) R)) w"
    by (simp del: accepts.simps(4) add: accepts.simps(5) [of False "Rep Digit k (Some k)"]) blast
qed

lemma accepts_last_group:
  "accepts False (Rep Digit k (Some k)) w \<longleftrightarrow> length w = k \<and> list_all isDigit w"
  by (auto simp add: atom_plain)

lemma accepts_uspsSpaced:
  "accepts False (source uspsSpacedPattern) w \<longleftrightarrow> spaced_groups [4, 4, 4, 4, 4, 4, 2] w"
  by (simp only: uspsSpacedPattern_def jsregex.simps seqs.simps accepts_group_step
      accepts_last_group spaced_groups.simps)

lemma accepts_longNumber:
  "accepts False (source longNumberPattern) w
     \<longleftrightarrow> 20 \<le> length w \<and> length w \<le> 22 \<and> list_all isDigit w"
  by (simp add: longNumberPattern_def atom_plain)

lemma match_anchored:
  assumes "anchor_free body"
  shows "match s \<lparr>source = anchored body, ignoreCase = ic\<rparr>
           = (if accepts ic body s then Some s else None)"
proof -
  have "(ends ic (length s) (Seq body Eol) s = []) \<longleftrightarrow> [] \<notin> set (ends ic (length s) body s)"
    by (auto simp add: concat_eq_Nil_conv)
  also have "\<dots> \<longleftrightarrow> \<not> accepts ic body s"
    using ends_correct [OF assms, of ic "length s" s] by auto
  finally show ?thesis
    by (simp add: match_def anchored_def exec_from_anchored del: ends.simps)
qed

lemmas table_defs = upsPattern_def fedexPattern_def uspsPattern_def dhlPattern_def
  amazonPattern_def ontracPattern_def

lemma table_whole:
  assumes "(c, p) \<in> set trackingPatterns" and "match s p = Some m"
  shows "m = s"
proof -
  from assms(1) obtain body where "p = \<lparr>source = anchored body, ignoreCase = ignoreCase p\<rparr>"
    and "anchor_free body"
    by (auto simp add: trackingPatterns_def table_defs)
  with assms(2) match_anchored [of body s "ignoreCase p"] show ?thesis
    by (auto split: if_splits)
qed

lemma firstPattern_find_gen:
  assumes "distinct (map fst ps)"
      and "\<And>c p m. (c, p) \<in> set ps \<Longrightarrow> match s p = Some m \<Longrightarrow> m = s"
  shows "firstPattern ps s
           = map_option (\<lambda>c. \<lparr>carrier = c, number = s\<rparr>)
               (find (\<lambda>c. case map_of ps c of Some p \<Rightarrow> match s p = Some s | None \<Rightarrow> False)
                     (map fst ps))"
  using assms
proof (induction ps)
  case Nil
  then show ?case by simp
next
  case (Cons cp ps)
  obtain c p where cp: "cp = (c, p)" by (cases cp)
  show ?case
  proof (cases "match s p")
    case (Some m)
    with Cons.prems(2) [of c p m] cp have "m = s" by simp
    with Some cp show ?thesis by simp
  next
    case None
    have notin: "c \<notin> fst ` set ps" using Cons.prems(1) cp by simp
    have IH: "firstPattern ps s
           = map_option (\<lambda>c. \<lparr>carrier = c, number = s\<rparr>)
               (find (\<lambda>c. case map_of ps c of Some p \<Rightarrow> match s p = Some s | None \<Rightarrow> False)
                     (map fst ps))"
      using Cons.prems cp by (intro Cons.IH) auto
    have same: "find (\<lambda>c'. case map_of ((c, p) # ps) c' of Some p \<Rightarrow> match s p = Some s | None \<Rightarrow> False)
                     (map fst ps)
              = find (\<lambda>c'. case map_of ps c' of Some p \<Rightarrow> match s p = Some s | None \<Rightarrow> False)
                     (map fst ps)"
      using notin by (intro find_cong) auto
    show ?thesis using None cp IH same by simp
  qed
qed

lemma firstPattern_table:
  "firstPattern trackingPatterns s
     = map_option (\<lambda>c. \<lparr>carrier = c, number = s\<rparr>)
         (find (\<lambda>c. fullyMatches c s) [UPS, FedEx, USPS, DHL, Amazon, OnTrac])"
proof -
  have d: "distinct (map fst trackingPatterns)"
    and m: "map fst trackingPatterns = [UPS, FedEx, USPS, DHL, Amazon, OnTrac]"
    by (simp_all add: trackingPatterns_def)
  have "firstPattern trackingPatterns s
     = map_option (\<lambda>c. \<lparr>carrier = c, number = s\<rparr>)
         (find (\<lambda>c. fullyMatches c s) (map fst trackingPatterns))"
    unfolding fullyMatches_def by (rule firstPattern_find_gen [OF d]) (rule table_whole)
  then show ?thesis by (simp only: m)
qed

lemma anchor_free_uspsSpaced: "anchor_free (source uspsSpacedPattern)"
  by (simp add: uspsSpacedPattern_def)

lemma anchor_free_longNumber: "anchor_free (source longNumberPattern)"
  by (simp add: longNumberPattern_def)

lemma ic_heuristics:
  "ignoreCase uspsSpacedPattern = False" "ignoreCase longNumberPattern = False"
  by (simp_all add: uspsSpacedPattern_def longNumberPattern_def)

lemma match_uspsSpaced_None:
  "match text uspsSpacedPattern = None \<longleftrightarrow> \<not> occursIn (spaced_groups [4, 4, 4, 4, 4, 4, 2]) text"
  unfolding match_def occursIn_def ic_heuristics
  by (simp only: exec_from_None [OF anchor_free_uspsSpaced] accepts_uspsSpaced)

lemma match_uspsSpaced_Some:
  assumes "match text uspsSpacedPattern = Some m"
  shows "spaced_groups [4, 4, 4, 4, 4, 4, 2] m \<and> (\<exists>pre post. text = pre @ m @ post)"
  using exec_from_Some [OF anchor_free_uspsSpaced, of False "length text" "text" m] assms
  unfolding match_def ic_heuristics by (simp only: accepts_uspsSpaced)

lemma match_longNumber_None:
  "match text longNumberPattern = None \<longleftrightarrow> \<not> occursIn digitRun text"
  unfolding match_def occursIn_def ic_heuristics digitRun_def
  by (simp only: exec_from_None [OF anchor_free_longNumber] accepts_longNumber)

lemma match_longNumber_Some:
  assumes "match text longNumberPattern = Some m"
  shows "digitRun m \<and> (\<exists>pre post. text = pre @ m @ post)"
  using exec_from_Some [OF anchor_free_longNumber, of False "length text" "text" m] assms
  unfolding match_def ic_heuristics digitRun_def by (simp only: accepts_longNumber)

section \<open>The tracking number extractor\<close>

lemmas rx_eval = trackingPatterns_def table_defs uspsSpacedPattern_def longNumberPattern_def
  match_def js_def anchored_def matchesAtom_def toUpper_def toLower_def isDigit_def
  isWhiteSpace_def isWordChar_def

text \<open>
  C1. \<^verbatim>\<open>pickTracking\<close> goes through the table in the order UPS, FedEx, USPS, DHL,
  Amazon, OnTrac; a table pattern matches only the whole string. The result is
  decided in four steps: the first carrier in this order whose pattern matches the
  raw text, with the raw text as number; else the first carrier whose pattern matches
  the text without its white space characters, with that text as number; else, when
  the text contains digit groups of sizes 4-4-4-4-4-4-2 separated by one or more white
  space characters, USPS with such a substring; else, when the text contains 20 to 22
  digits in a row, USPS with such a substring; else \<^verbatim>\<open>null\<close>. So the result is
  \<^verbatim>\<open>null\<close> exactly when none of the four steps matches. (The separators of the
  third step are the characters of \<^verbatim>\<open>\s\<close>, of which the space is one.)
\<close>

theorem pickTracking_four_passes:
  "map fst trackingPatterns = [UPS, FedEx, USPS, DHL, Amazon, OnTrac]
   \<and> (\<forall>c p m. map_of trackingPatterns c = Some p \<and> match s p = Some m \<longrightarrow> m = s)
   \<and> (case find (\<lambda>c. fullyMatches c t) [UPS, FedEx, USPS, DHL, Amazon, OnTrac] of
        Some c \<Rightarrow> pickTracking t = Some \<lparr>carrier = c, number = t\<rparr>
      | None \<Rightarrow>
         (case find (\<lambda>c. fullyMatches c (filter (\<lambda>x. \<not> isWhiteSpace x) t))
                    [UPS, FedEx, USPS, DHL, Amazon, OnTrac] of
            Some c \<Rightarrow>
              pickTracking t = Some \<lparr>carrier = c, number = filter (\<lambda>x. \<not> isWhiteSpace x) t\<rparr>
          | None \<Rightarrow>
              (if occursIn (spaced_groups [4, 4, 4, 4, 4, 4, 2]) t
               then \<exists>m. pickTracking t = Some \<lparr>carrier = USPS, number = m\<rparr>
                        \<and> spaced_groups [4, 4, 4, 4, 4, 4, 2] m
                        \<and> (\<exists>pre post. t = pre @ m @ post)
               else if occursIn digitRun t
               then \<exists>m. pickTracking t = Some \<lparr>carrier = USPS, number = m\<rparr>
                        \<and> digitRun m \<and> (\<exists>pre post. t = pre @ m @ post)
               else pickTracking t = None)))"
proof (intro conjI)
  show "map fst trackingPatterns = [UPS, FedEx, USPS, DHL, Amazon, OnTrac]"
    by (simp add: trackingPatterns_def)
  show "\<forall>c p m. map_of trackingPatterns c = Some p \<and> match s p = Some m \<longrightarrow> m = s"
    using table_whole [of _ _ s] by (blast dest: map_of_SomeD)
  let ?order = "[UPS, FedEx, USPS, DHL, Amazon, OnTrac]"
  let ?clean = "filter (\<lambda>x. \<not> isWhiteSpace x) t"
  show "case find (\<lambda>c. fullyMatches c t) ?order of
        Some c \<Rightarrow> pickTracking t = Some \<lparr>carrier = c, number = t\<rparr>
      | None \<Rightarrow>
         (case find (\<lambda>c. fullyMatches c ?clean) ?order of
            Some c \<Rightarrow> pickTracking t = Some \<lparr>carrier = c, number = ?clean\<rparr>
          | None \<Rightarrow>
              (if occursIn (spaced_groups [4, 4, 4, 4, 4, 4, 2]) t
               then \<exists>m. pickTracking t = Some \<lparr>carrier = USPS, number = m\<rparr>
                        \<and> spaced_groups [4, 4, 4, 4, 4, 4, 2] m
                        \<and> (\<exists>pre post. t = pre @ m @ post)
               else if occursIn digitRun t
               then \<exists>m. pickTracking t = Some \<lparr>carrier = USPS, number = m\<rparr>
                        \<and> digitRun m \<and> (\<exists>pre post. t = pre @ m @ post)
               else pickTracking t = None))"
  proof (cases "find (\<lambda>c. fullyMatches c t) ?order")
    case (Some c)
    then have "pickTracking t = Some \<lparr>carrier = c, number = t\<rparr>"
      by (simp add: pickTracking_def firstPattern_table)
    with Some show ?thesis by simp
  next
    case p1: None
    then have f1: "firstPattern trackingPatterns t = None"
      by (simp add: firstPattern_table)
    show ?thesis
    proof (cases "find (\<lambda>c. fullyMatches c ?clean) ?order")
      case (Some c)
      then have "pickTracking t = Some \<lparr>carrier = c, number = ?clean\<rparr>"
        using f1 by (simp add: pickTracking_def firstPattern_table removeWhiteSpace_filter)
      with p1 Some show ?thesis by simp
    next
      case p2: None
      then have f2: "firstPattern trackingPatterns (removeWhiteSpace t) = None"
        by (simp add: firstPattern_table removeWhiteSpace_filter)
      have rest: "pickTracking t =
          (case match t uspsSpacedPattern of
             Some m \<Rightarrow> Some \<lparr>carrier = USPS, number = m\<rparr>
           | None \<Rightarrow> (case match t longNumberPattern of
                        Some m \<Rightarrow> Some \<lparr>carrier = USPS, number = m\<rparr>
                      | None \<Rightarrow> None))"
        using f1 f2 by (simp add: pickTracking_def)
      show ?thesis
      proof (cases "match t uspsSpacedPattern")
        case (Some m)
        then have occ: "occursIn (spaced_groups [4, 4, 4, 4, 4, 4, 2]) t"
          using match_uspsSpaced_None [of t] by simp
        from Some rest match_uspsSpaced_Some [OF Some]
        have "pickTracking t = Some \<lparr>carrier = USPS, number = m\<rparr>
                \<and> spaced_groups [4, 4, 4, 4, 4, 4, 2] m \<and> (\<exists>pre post. t = pre @ m @ post)"
          by simp
        then have "\<exists>m. pickTracking t = Some \<lparr>carrier = USPS, number = m\<rparr>
                \<and> spaced_groups [4, 4, 4, 4, 4, 4, 2] m \<and> (\<exists>pre post. t = pre @ m @ post)"
          by blast
        with p1 p2 occ show ?thesis by (simp only: option.case if_True)
      next
        case p3: None
        then have nocc: "\<not> occursIn (spaced_groups [4, 4, 4, 4, 4, 4, 2]) t"
          using match_uspsSpaced_None [of t] by simp
        show ?thesis
        proof (cases "match t longNumberPattern")
          case (Some m)
          then have occ: "occursIn digitRun t"
            using match_longNumber_None [of t] by simp
          from Some p3 rest match_longNumber_Some [OF Some]
          have "pickTracking t = Some \<lparr>carrier = USPS, number = m\<rparr>
                  \<and> digitRun m \<and> (\<exists>pre post. t = pre @ m @ post)"
            by simp
          then have "\<exists>m. pickTracking t = Some \<lparr>carrier = USPS, number = m\<rparr>
                  \<and> digitRun m \<and> (\<exists>pre post. t = pre @ m @ post)"
            by blast
          with p1 p2 nocc occ show ?thesis by (simp only: option.case if_True if_False)
        next
          case p4: None
          then have nocc4: "\<not> occursIn digitRun t"
            using match_longNumber_None [of t] by simp
          from p3 p4 rest have "pickTracking t = None" by simp
          with p1 p2 nocc nocc4 show ?thesis by (simp only: option.case if_False)
        qed
      qed
    qed
  qed
qed

theorem pickTracking_four_passes_witness:
  "fullyMatches UPS (js ''1Z999AA10123456784'')
   \<and> pickTracking (js ''1Z999AA10123456784'')
       = Some \<lparr>carrier = UPS, number = js ''1Z999AA10123456784''\<rparr>
   \<and> find (\<lambda>c. fullyMatches c (js ''hello'')) [UPS, FedEx, USPS, DHL, Amazon, OnTrac] = None"
proof -
  let ?t = "js ''1Z999AA10123456784''"
  have fm: "fullyMatches UPS ?t"
    by (simp add: fullyMatches_def rx_eval)
  then have f: "find (\<lambda>c. fullyMatches c ?t) [UPS, FedEx, USPS, DHL, Amazon, OnTrac] = Some UPS"
    by simp
  note inst = pickTracking_four_passes [of ?t ?t]
  have "pickTracking ?t = Some \<lparr>carrier = UPS, number = ?t\<rparr>"
    using inst [THEN conjunct2, THEN conjunct2] unfolding f by (simp only: option.case)
  moreover have "find (\<lambda>c. fullyMatches c (js ''hello'')) [UPS, FedEx, USPS, DHL, Amazon, OnTrac] = None"
    by (simp add: fullyMatches_def rx_eval)
  ultimately show ?thesis using fm by blast
qed

lemma digitRun_fullyMatches: "digitRun m \<Longrightarrow> fullyMatches USPS m"
proof -
  assume d: "digitRun m"
  have "accepts False (Rep Digit 20 (Some 22)) m"
    using d by (simp add: digitRun_def atom_plain)
  then show ?thesis
    by (simp add: fullyMatches_def trackingPatterns_def uspsPattern_def match_anchored
        del: accepts.simps(4))
qed

lemma firstPattern_fullyMatches:
  "firstPattern trackingPatterns s = Some r \<Longrightarrow> number r = s \<and> fullyMatches (carrier r) s"
proof -
  assume "firstPattern trackingPatterns s = Some r"
  then obtain c where c: "find (\<lambda>c. fullyMatches c s) [UPS, FedEx, USPS, DHL, Amazon, OnTrac] = Some c"
    and r: "r = \<lparr>carrier = c, number = s\<rparr>"
    unfolding firstPattern_table by blast
  from c have "fullyMatches c s" unfolding find_Some_iff by blast
  with r show ?thesis by simp
qed

lemma accepts_single_step:
  assumes "w = g @ c # rest" and "length g = k" and "list_all isDigit g"
    and "isWhiteSpace c" and "accepts False R rest"
  shows "accepts False (Seq (Rep Digit k (Some k)) (Seq (Rep Space 0 (Some 1)) R)) w"
proof -
  have g: "accepts False (Rep Digit k (Some k)) g"
    using assms(2,3) by (simp add: atom_plain)
  have "accepts False (Rep Space 0 (Some 1)) [c]"
    using assms(4) by (simp add: atom_plain)
  with assms(5) have "accepts False (Seq (Rep Space 0 (Some 1)) R) ([c] @ rest)"
    unfolding accepts.simps(5) by blast
  with g assms(1) show ?thesis
    unfolding accepts.simps(5) [of False "Rep Digit k (Some k)"] by auto
qed

lemma single_spaced_Cons:
  "single_spaced_groups (k # k' # ks) w \<longleftrightarrow>
     (\<exists>g c rest. w = g @ c # rest \<and> length g = k \<and> list_all isDigit g
        \<and> isWhiteSpace c \<and> single_spaced_groups (k' # ks) rest)"
  by simp

lemma single_spaced_accepts:
  assumes "single_spaced_groups [4, 4, 4, 4, 4, 4, 2] w"
  shows "accepts False
           (seqs [Rep Digit 4 (Some 4), Rep Space 0 (Some 1),
                  Rep Digit 4 (Some 4), Rep Space 0 (Some 1),
                  Rep Digit 4 (Some 4), Rep Space 0 (Some 1),
                  Rep Digit 4 (Some 4), Rep Space 0 (Some 1),
                  Rep Digit 4 (Some 4), Rep Space 0 (Some 1),
                  Rep Digit 4 (Some 4), Rep Space 0 (Some 1),
                  Rep Digit 2 (Some 2)]) w"
proof -
  from single_spaced_Cons [THEN iffD1, OF assms] obtain g1 c1 r1 where 1: "w = g1 @ c1 # r1" "length g1 = 4" "list_all isDigit g1"
    "isWhiteSpace c1" and s1: "single_spaced_groups [4, 4, 4, 4, 4, 2] r1"
    by blast
  from single_spaced_Cons [THEN iffD1, OF s1] obtain g2 c2 r2 where 2: "r1 = g2 @ c2 # r2" "length g2 = 4" "list_all isDigit g2"
    "isWhiteSpace c2" and s2: "single_spaced_groups [4, 4, 4, 4, 2] r2"
    by blast
  from single_spaced_Cons [THEN iffD1, OF s2] obtain g3 c3 r3 where 3: "r2 = g3 @ c3 # r3" "length g3 = 4" "list_all isDigit g3"
    "isWhiteSpace c3" and s3: "single_spaced_groups [4, 4, 4, 2] r3"
    by blast
  from single_spaced_Cons [THEN iffD1, OF s3] obtain g4 c4 r4 where 4: "r3 = g4 @ c4 # r4" "length g4 = 4" "list_all isDigit g4"
    "isWhiteSpace c4" and s4: "single_spaced_groups [4, 4, 2] r4"
    by blast
  from single_spaced_Cons [THEN iffD1, OF s4] obtain g5 c5 r5 where 5: "r4 = g5 @ c5 # r5" "length g5 = 4" "list_all isDigit g5"
    "isWhiteSpace c5" and s5: "single_spaced_groups [4, 2] r5"
    by blast
  from single_spaced_Cons [THEN iffD1, OF s5] obtain g6 c6 r6 where 6: "r5 = g6 @ c6 # r6" "length g6 = 4" "list_all isDigit g6"
    "isWhiteSpace c6" and s6: "single_spaced_groups [2] r6"
    by blast
  from s6 have a7: "accepts False (Rep Digit 2 (Some 2)) r6"
    by (simp add: atom_plain)
  note a6 = accepts_single_step [OF 6 a7]
  note a5 = accepts_single_step [OF 5 a6]
  note a4 = accepts_single_step [OF 4 a5]
  note a3 = accepts_single_step [OF 3 a4]
  note a2 = accepts_single_step [OF 2 a3]
  note a1 = accepts_single_step [OF 1 a2]
  then show ?thesis by (simp only: seqs.simps)
qed

lemma single_spaced_fullyMatches:
  assumes "single_spaced_groups [4, 4, 4, 4, 4, 4, 2] m"
  shows "fullyMatches USPS m"
proof -
  let ?spaced = "seqs [Rep Digit 4 (Some 4), Rep Space 0 (Some 1),
                  Rep Digit 4 (Some 4), Rep Space 0 (Some 1),
                  Rep Digit 4 (Some 4), Rep Space 0 (Some 1),
                  Rep Digit 4 (Some 4), Rep Space 0 (Some 1),
                  Rep Digit 4 (Some 4), Rep Space 0 (Some 1),
                  Rep Digit 4 (Some 4), Rep Space 0 (Some 1),
                  Rep Digit 2 (Some 2)]"
  let ?body = "Alt (Rep Digit 20 (Some 22)) ?spaced"
  have af: "anchor_free ?body" by simp
  from assms have "accepts False ?spaced m" by (rule single_spaced_accepts)
  then have "accepts False ?body m" by (simp only: accepts.simps(6) simp_thms)
  then have "match m \<lparr>source = anchored ?body, ignoreCase = False\<rparr> = Some m"
    by (simp only: match_anchored [OF af] if_True)
  then have "match m uspsPattern = Some m"
    by (simp only: uspsPattern_def)
  then show ?thesis by (simp add: fullyMatches_def trackingPatterns_def)
qed

text \<open>
  C5. The number of a result fully matches the table pattern of the result's carrier,
  with one exception: a result of the third step (no table pattern matches the text or
  the text without white space, and the spaced USPS pattern matches) in which some
  separator between the digit groups is longer than one white space character. Such a
  result has the carrier USPS and a number made of digit groups of sizes 4-4-4-4-4-4-2
  separated by one or more white space characters.
\<close>

theorem pickTracking_number_matches:
  "pickTracking t = Some r \<Longrightarrow>
     fullyMatches (carrier r) (number r)
     \<or> (carrier r = USPS
        \<and> firstPattern trackingPatterns t = None
        \<and> firstPattern trackingPatterns (removeWhiteSpace t) = None
        \<and> match t uspsSpacedPattern = Some (number r)
        \<and> spaced_groups [4, 4, 4, 4, 4, 4, 2] (number r)
        \<and> \<not> single_spaced_groups [4, 4, 4, 4, 4, 4, 2] (number r))"
proof -
  assume a: "pickTracking t = Some r"
  show ?thesis
  proof (cases "firstPattern trackingPatterns t")
    case (Some r1)
    with a have "r = r1" by (simp add: pickTracking_def)
    with firstPattern_fullyMatches [OF Some] show ?thesis by simp
  next
    case f1: None
    show ?thesis
    proof (cases "firstPattern trackingPatterns (removeWhiteSpace t)")
      case (Some r2)
      with a f1 have "r = r2" by (simp add: pickTracking_def)
      with firstPattern_fullyMatches [OF Some] show ?thesis by simp
    next
      case f2: None
      show ?thesis
      proof (cases "match t uspsSpacedPattern")
        case (Some m)
        with a f1 f2 have r: "r = \<lparr>carrier = USPS, number = m\<rparr>"
          by (simp add: pickTracking_def)
        show ?thesis
        proof (cases "single_spaced_groups [4, 4, 4, 4, 4, 4, 2] m")
          case True
          then have "fullyMatches USPS m" by (rule single_spaced_fullyMatches)
          with r show ?thesis by simp
        next
          case False
          with r f1 f2 Some match_uspsSpaced_Some [OF Some] show ?thesis
            by (simp del: spaced_groups.simps single_spaced_groups.simps)
        qed
      next
        case p3: None
        with a f1 f2 obtain m where m: "match t longNumberPattern = Some m"
          and r: "r = \<lparr>carrier = USPS, number = m\<rparr>"
          by (auto simp add: pickTracking_def split: option.splits)
        from match_longNumber_Some [OF m] have "fullyMatches USPS m"
          by (simp add: digitRun_fullyMatches)
        with r show ?thesis by simp
      qed
    qed
  qed
qed

theorem pickTracking_number_matches_witness:
  "pickTracking (js ''ab92001903478422300221161674999'')
     = Some \<lparr>carrier = USPS, number = js ''9200190347842230022116''\<rparr>
   \<and> (fullyMatches USPS (js ''9200190347842230022116'')
      \<or> (firstPattern trackingPatterns (js ''ab92001903478422300221161674999'') = None
         \<and> firstPattern trackingPatterns
               (removeWhiteSpace (js ''ab92001903478422300221161674999'')) = None
         \<and> match (js ''ab92001903478422300221161674999'') uspsSpacedPattern
               = Some (js ''9200190347842230022116'')
         \<and> spaced_groups [4, 4, 4, 4, 4, 4, 2] (js ''9200190347842230022116'')
         \<and> \<not> single_spaced_groups [4, 4, 4, 4, 4, 4, 2] (js ''9200190347842230022116'')))"
proof -
  have p: "pickTracking (js ''ab92001903478422300221161674999'')
     = Some \<lparr>carrier = USPS, number = js ''9200190347842230022116''\<rparr>"
    by (simp add: pickTracking_def removeWhiteSpace_def Let_def rx_eval)
  from pickTracking_number_matches [OF p]
  have "fullyMatches USPS (js ''9200190347842230022116'')
      \<or> (firstPattern trackingPatterns (js ''ab92001903478422300221161674999'') = None
         \<and> firstPattern trackingPatterns
               (removeWhiteSpace (js ''ab92001903478422300221161674999'')) = None
         \<and> match (js ''ab92001903478422300221161674999'') uspsSpacedPattern
               = Some (js ''9200190347842230022116'')
         \<and> spaced_groups [4, 4, 4, 4, 4, 4, 2] (js ''9200190347842230022116'')
         \<and> \<not> single_spaced_groups [4, 4, 4, 4, 4, 4, 2] (js ''9200190347842230022116''))"
    by (simp only: tracking.simps simp_thms)
  with p show ?thesis by (rule conjI)
qed

text \<open>
  A number that does not match its carrier's pattern: on the text
  \<^verbatim>\<open>x 9200  1903 4784 2230 0221 1616 74\<close>, with two spaces after the first group, the
  third step returns USPS with the number \<^verbatim>\<open>9200  1903 4784 2230 0221 1616 74\<close>,
  which the USPS pattern, allowing at most one white space character between groups,
  does not match.
\<close>

theorem pickTracking_partial_match_counterexample:
  "pickTracking (js ''x 9200  1903 4784 2230 0221 1616 74'')
     = Some \<lparr>carrier = USPS, number = js ''9200  1903 4784 2230 0221 1616 74''\<rparr>
   \<and> map_of trackingPatterns USPS = Some uspsPattern
   \<and> match (js ''9200  1903 4784 2230 0221 1616 74'') uspsPattern = None
   \<and> \<not> fullyMatches USPS (js ''9200  1903 4784 2230 0221 1616 74'')"
  by (simp add: pickTracking_def removeWhiteSpace_def Let_def fullyMatches_def rx_eval)

section \<open>Choosing among detected symbols\<close>

lemma hd_insert_sorted:
  "hd (insert_sorted cmp x ys) = (if ys = [] \<or> cmp x (hd ys) \<le> 0 then x else hd ys)"
  by (cases ys) simp_all

lemma array_sort_Cons: "array_sort cmp (x # xs) = insert_sorted cmp x (array_sort cmp xs)"
  by (simp add: array_sort_def)

lemma insert_sorted_not_Nil: "insert_sorted cmp x ys \<noteq> []"
  by (cases ys) simp_all

lemma array_sort_Nil_iff: "array_sort cmp xs = [] \<longleftrightarrow> xs = []"
  by (cases xs) (simp_all add: array_sort_def insert_sorted_not_Nil)

lemma hd_array_sort_longest:
  assumes "xs \<noteq> []"
  shows "\<exists>i < length xs.
           hd (array_sort (\<lambda>a b. rawLength b - rawLength a) xs) = xs ! i
           \<and> (\<forall>j < length xs. rawLength (xs ! j) \<le> rawLength (xs ! i))
           \<and> (\<forall>j < i. rawLength (xs ! j) < rawLength (xs ! i))"
  using assms
proof (induction xs)
  case Nil
  then show ?case by simp
next
  case (Cons x xs)
  let ?cmp = "\<lambda>a b. rawLength b - rawLength a"
  show ?case
  proof (cases "xs = []")
    case True
    then show ?thesis by (simp add: array_sort_def)
  next
    case False
    from Cons.IH [OF False] obtain i where i: "i < length xs"
      and h: "hd (array_sort ?cmp xs) = xs ! i"
      and mx: "\<forall>j < length xs. rawLength (xs ! j) \<le> rawLength (xs ! i)"
      and first: "\<forall>j < i. rawLength (xs ! j) < rawLength (xs ! i)"
      by blast
    have ne: "array_sort ?cmp xs \<noteq> []" using False by (simp add: array_sort_Nil_iff)
    show ?thesis
    proof (cases "rawLength (xs ! i) \<le> rawLength x")
      case True
      then have "hd (array_sort ?cmp (x # xs)) = (x # xs) ! 0"
        using h ne by (simp add: array_sort_Cons hd_insert_sorted)
      moreover have "\<forall>j < length (x # xs). rawLength ((x # xs) ! j) \<le> rawLength ((x # xs) ! 0)"
      proof (intro allI impI)
        fix j assume "j < length (x # xs)"
        then show "rawLength ((x # xs) ! j) \<le> rawLength ((x # xs) ! 0)"
          using mx True by (cases j) (auto intro: order_trans)
      qed
      ultimately show ?thesis by (intro exI [of _ 0]) simp
    next
      case False
      then have lt: "rawLength x < rawLength (xs ! i)" by simp
      then have "hd (array_sort ?cmp (x # xs)) = (x # xs) ! Suc i"
        using h ne by (simp add: array_sort_Cons hd_insert_sorted)
      moreover have "\<forall>j < length (x # xs). rawLength ((x # xs) ! j) \<le> rawLength ((x # xs) ! Suc i)"
      proof (intro allI impI)
        fix j assume "j < length (x # xs)"
        then show "rawLength ((x # xs) ! j) \<le> rawLength ((x # xs) ! Suc i)"
          using mx lt by (cases j) auto
      qed
      moreover have "\<forall>j < Suc i. rawLength ((x # xs) ! j) < rawLength ((x # xs) ! Suc i)"
      proof (intro allI impI)
        fix j assume "j < Suc i"
        then show "rawLength ((x # xs) ! j) < rawLength ((x # xs) ! Suc i)"
          using first lt by (cases j) auto
      qed
      ultimately show ?thesis using i by (intro exI [of _ "Suc i"]) simp
    qed
  qed
qed

lemma exec_from_Bol:
  "exec_from ic (length t) (Seq Bol q) t
     = (case ends ic (length t) q t of [] \<Rightarrow> None | e # es \<Rightarrow> Some (take (length t - length e) t))"
  by (cases t) (simp_all add: exec_from_Bol_short split: list.splits)

lemma accepts_One_step:
  "accepts ic (Seq (One a) R) w
     \<longleftrightarrow> (\<exists>c rest. w = c # rest \<and> matchesAtom ic a c \<and> accepts ic R rest)"
proof
  assume "accepts ic (Seq (One a) R) w"
  then obtain u v c where "w = u @ v" "u = [c]" "matchesAtom ic a c" "accepts ic R v"
    by auto
  then have "w = c # v \<and> matchesAtom ic a c \<and> accepts ic R v" by simp
  then show "\<exists>c rest. w = c # rest \<and> matchesAtom ic a c \<and> accepts ic R rest" by blast
next
  assume "\<exists>c rest. w = c # rest \<and> matchesAtom ic a c \<and> accepts ic R rest"
  then obtain c rest where "w = [c] @ rest" "accepts ic (One a) [c]" "accepts ic R rest"
    by auto
  then show "accepts ic (Seq (One a) R) w"
    unfolding accepts.simps(5) by blast
qed

lemma accepts_tba:
  "accepts True (seqs [One (Chr CHR ''T''), One (Chr CHR ''B''), One (Chr CHR ''A''),
                       Rep Digit 1 None]) w
     \<longleftrightarrow> (\<exists>x y z ds. w = x # y # z # ds
            \<and> (x = of_char CHR ''T'' \<or> x = of_char CHR ''t'')
            \<and> (y = of_char CHR ''B'' \<or> y = of_char CHR ''b'')
            \<and> (z = of_char CHR ''A'' \<or> z = of_char CHR ''a'')
            \<and> ds \<noteq> [] \<and> list_all isDigit ds)"
proof -
  have d: "matchesAtom True Digit = isDigit"
    by (rule ext) (auto simp add: matchesAtom_def toUpper_def toLower_def isDigit_def)
  have T: "\<And>c. matchesAtom True (Chr CHR ''T'') c \<longleftrightarrow> c = of_char CHR ''T'' \<or> c = of_char CHR ''t''"
    and B: "\<And>c. matchesAtom True (Chr CHR ''B'') c \<longleftrightarrow> c = of_char CHR ''B'' \<or> c = of_char CHR ''b''"
    and A: "\<And>c. matchesAtom True (Chr CHR ''A'') c \<longleftrightarrow> c = of_char CHR ''A'' \<or> c = of_char CHR ''a''"
    by (auto simp add: matchesAtom_def toUpper_def toLower_def)
  have len: "\<And>ds::nat list. 1 \<le> length ds \<longleftrightarrow> ds \<noteq> []"
    by (case_tac ds) simp_all
  have "accepts True (seqs [One (Chr CHR ''T''), One (Chr CHR ''B''), One (Chr CHR ''A''),
                       Rep Digit 1 None]) w
     \<longleftrightarrow> (\<exists>x r1. w = x # r1 \<and> (x = of_char CHR ''T'' \<or> x = of_char CHR ''t'')
          \<and> (\<exists>y r2. r1 = y # r2 \<and> (y = of_char CHR ''B'' \<or> y = of_char CHR ''b'')
             \<and> (\<exists>z ds. r2 = z # ds \<and> (z = of_char CHR ''A'' \<or> z = of_char CHR ''a'')
                \<and> ds \<noteq> [] \<and> list_all isDigit ds)))"
    unfolding seqs.simps accepts_One_step T B A
    by (simp only: accepts.simps d option.case len simp_thms)
  also have "\<dots> \<longleftrightarrow> (\<exists>x y z ds. w = x # y # z # ds
            \<and> (x = of_char CHR ''T'' \<or> x = of_char CHR ''t'')
            \<and> (y = of_char CHR ''B'' \<or> y = of_char CHR ''b'')
            \<and> (z = of_char CHR ''A'' \<or> z = of_char CHR ''a'')
            \<and> ds \<noteq> [] \<and> list_all isDigit ds)"
    by blast
  finally show ?thesis .
qed

lemma test_tba:
  "test tbaPattern s
     \<longleftrightarrow> (\<exists>x y z d rest. s = x # y # z # d # rest
            \<and> (x = of_char CHR ''T'' \<or> x = of_char CHR ''t'')
            \<and> (y = of_char CHR ''B'' \<or> y = of_char CHR ''b'')
            \<and> (z = of_char CHR ''A'' \<or> z = of_char CHR ''a'')
            \<and> isDigit d)"
proof -
  let ?body = "seqs [One (Chr CHR ''T''), One (Chr CHR ''B''), One (Chr CHR ''A''), Rep Digit 1 None]"
  have af: "anchor_free ?body" by simp
  have "test tbaPattern s \<longleftrightarrow> ends True (length s) ?body s \<noteq> []"
    by (simp add: test_def match_def tbaPattern_def exec_from_Bol del: ends.simps seqs.simps
        split: list.splits)
  also have "\<dots> \<longleftrightarrow> (\<exists>w r. s = w @ r \<and> accepts True ?body w)"
    using ends_correct [OF af, of True "length s" s]
    by (auto simp add: set_empty [symmetric] simp del: set_empty ends.simps seqs.simps accepts.simps)
  also have "\<dots> \<longleftrightarrow> (\<exists>x y z d rest. s = x # y # z # d # rest
            \<and> (x = of_char CHR ''T'' \<or> x = of_char CHR ''t'')
            \<and> (y = of_char CHR ''B'' \<or> y = of_char CHR ''b'')
            \<and> (z = of_char CHR ''A'' \<or> z = of_char CHR ''a'')
            \<and> isDigit d)"
  proof
    assume "\<exists>w r. s = w @ r \<and> accepts True ?body w"
    then obtain w r where s: "s = w @ r" and "accepts True ?body w" by blast
    then obtain x y z ds where w: "w = x # y # z # ds"
      and c: "x = of_char CHR ''T'' \<or> x = of_char CHR ''t''"
        "y = of_char CHR ''B'' \<or> y = of_char CHR ''b''"
        "z = of_char CHR ''A'' \<or> z = of_char CHR ''a''"
      and ds: "ds \<noteq> []" "list_all isDigit ds"
      unfolding accepts_tba by blast
    from ds obtain d ds' where "ds = d # ds'" "isDigit d" by (cases ds) auto
    with s w c show "\<exists>x y z d rest. s = x # y # z # d # rest
            \<and> (x = of_char CHR ''T'' \<or> x = of_char CHR ''t'')
            \<and> (y = of_char CHR ''B'' \<or> y = of_char CHR ''b'')
            \<and> (z = of_char CHR ''A'' \<or> z = of_char CHR ''a'')
            \<and> isDigit d"
      by simp
  next
    assume "\<exists>x y z d rest. s = x # y # z # d # rest
            \<and> (x = of_char CHR ''T'' \<or> x = of_char CHR ''t'')
            \<and> (y = of_char CHR ''B'' \<or> y = of_char CHR ''b'')
            \<and> (z = of_char CHR ''A'' \<or> z = of_char CHR ''a'')
            \<and> isDigit d"
    then obtain x y z d rest where s: "s = [x, y, z, d] @ rest"
      and c: "x = of_char CHR ''T'' \<or> x = of_char CHR ''t''"
        "y = of_char CHR ''B'' \<or> y = of_char CHR ''b''"
        "z = of_char CHR ''A'' \<or> z = of_char CHR ''a''" "isDigit d"
      by auto
    from c have "accepts True ?body [x, y, z, d]"
      unfolding accepts_tba by simp
    with s show "\<exists>w r. s = w @ r \<and> accepts True ?body w" by blast
  qed
  finally show ?thesis .
qed

lemma nativeText_pickBest:
  "pickBest barcodes = Some b \<Longrightarrow>
     nativeText barcodes = (if trim (rawText b) = [] then None else Some (trim (rawText b)))"
  by (cases "barcodes = []")
     (simp_all add: nativeText_def Let_def pickBest_def array_sort_def)

lemma nativeAttempt_text:
  "fst (nativeAttempt nd cie file) =
     (case nd of
        None \<Rightarrow> None
      | Some detect \<Rightarrow>
         (case cie file of
            None \<Rightarrow> None
          | Some img \<Rightarrow> (case detect img of None \<Rightarrow> None | Some barcodes \<Rightarrow> nativeText barcodes)))"
  by (simp add: nativeAttempt_def split: option.splits)

lemma decodeFromFile_native:
  assumes "cie file = Some img" and "detect img = Some barcodes"
  shows "decodeFromFile (Some detect) zxing cie vs file
     = (case nativeText barcodes of
          Some t \<Rightarrow> \<lparr>finalResult = Some t, attemptCount = 0, calls = [NativeDetect img]\<rparr>
        | None \<Rightarrow> (zxingVariations zxing file vs 0)
                    \<lparr>calls := NativeDetect img # calls (zxingVariations zxing file vs 0)\<rparr>)"
  using assms by (simp add: decodeFromFile_def nativeAttempt_def Let_def split: option.splits)

lemma tba_first: "test tbaPattern (trim (rawText \<lparr>rawValue = Some (js ''TBA000000000001'')\<rparr>))"
  by (simp add: test_tba trim_def rawText_def js_def isWhiteSpace_def isDigit_def)

lemma nines_not_tba:
  "\<not> test tbaPattern (trim (rawText \<lparr>rawValue = Some (js ''9999999999999999999999'')\<rparr>))"
  by (simp add: test_tba trim_def rawText_def js_def isWhiteSpace_def)

lemma pickBest_two_a:
  "pickBest [\<lparr>rawValue = Some (js ''TBA000000000001'')\<rparr>,
             \<lparr>rawValue = Some (js ''9999999999999999999999'')\<rparr>]
        = Some \<lparr>rawValue = Some (js ''TBA000000000001'')\<rparr>"
  using tba_first by (simp add: pickBest_def)

lemma pickBest_two_b:
  "pickBest [\<lparr>rawValue = Some (js ''9999999999999999999999'')\<rparr>,
             \<lparr>rawValue = Some (js ''TBA000000000001'')\<rparr>]
        = Some \<lparr>rawValue = Some (js ''TBA000000000001'')\<rparr>"
  using tba_first nines_not_tba by (simp add: pickBest_def)

lemma trim_tba: "trim (rawText \<lparr>rawValue = Some (js ''TBA000000000001'')\<rparr>) = js ''TBA000000000001''"
  by (simp add: trim_def rawText_def js_def isWhiteSpace_def)

lemma nativeText_two_a:
  "nativeText [\<lparr>rawValue = Some (js ''TBA000000000001'')\<rparr>,
               \<lparr>rawValue = Some (js ''9999999999999999999999'')\<rparr>] = Some (js ''TBA000000000001'')"
  by (simp only: nativeText_pickBest [OF pickBest_two_a] trim_tba) (simp add: js_def)

lemma nativeText_two_b:
  "nativeText [\<lparr>rawValue = Some (js ''9999999999999999999999'')\<rparr>,
               \<lparr>rawValue = Some (js ''TBA000000000001'')\<rparr>] = Some (js ''TBA000000000001'')"
  by (simp only: nativeText_pickBest [OF pickBest_two_b] trim_tba) (simp add: js_def)

text \<open>
  C4. From a non-empty list of symbols the choice is an element of the list: if some
  symbol's trimmed text starts with TBA, in either case, followed by a digit, the
  first such symbol, whatever its length; otherwise the first among the symbols with
  the longest text. The text that \<^verbatim>\<open>decodeFromFile\<close> and the native loop of
  \<^verbatim>\<open>startDecoding\<close> go on with is the trimmed text of this symbol: if it is not
  empty, \<^verbatim>\<open>decodeFromFile\<close> ends with it as result after the single native call, and
  the loop hands it to \<^verbatim>\<open>pickTracking\<close> and \<^verbatim>\<open>maybeEmit\<close>. Of
  \<^verbatim>\<open>TBA000000000001\<close> and \<^verbatim>\<open>9999999999999999999999\<close> the first is chosen, in
  either order, by the choice, by \<^verbatim>\<open>decodeFromFile\<close> and by the loop.
\<close>

theorem pickBest_tba_then_longest:
  "(barcodes \<noteq> [] \<longrightarrow>
      (\<exists>i < length barcodes.
         pickBest barcodes = Some (barcodes ! i)
         \<and> (if \<exists>b \<in> set barcodes. test tbaPattern (trim (rawText b))
            then test tbaPattern (trim (rawText (barcodes ! i)))
                 \<and> (\<forall>j < i. \<not> test tbaPattern (trim (rawText (barcodes ! j))))
            else (\<forall>j < length barcodes. rawLength (barcodes ! j) \<le> rawLength (barcodes ! i))
                 \<and> (\<forall>j < i. rawLength (barcodes ! j) < rawLength (barcodes ! i)))
         \<and> nativeText barcodes
             = (if trim (rawText (barcodes ! i)) = [] then None
                else Some (trim (rawText (barcodes ! i))))
         \<and> (cie file = Some img \<and> detect img = Some barcodes
              \<and> trim (rawText (barcodes ! i)) \<noteq> [] \<longrightarrow>
            decodeFromFile (Some detect) zxing cie vs file
              = \<lparr>finalResult = Some (trim (rawText (barcodes ! i))), attemptCount = 0,
                 calls = [NativeDetect img]\<rparr>)
         \<and> (usingNativeDetector st \<and> trim (rawText (barcodes ! i)) \<noteq> [] \<longrightarrow>
            loop st (Some barcodes) now nextId
              = (fst (maybeEmit st (pickTracking (trim (rawText (barcodes ! i)))) now),
                 (snd (maybeEmit st (pickTracking (trim (rawText (barcodes ! i)))) now))
                   \<lparr>rafId := Some nextId\<rparr>))))
   \<and> (test tbaPattern s \<longleftrightarrow>
        (\<exists>x y z d rest. s = x # y # z # d # rest
            \<and> (x = of_char CHR ''T'' \<or> x = of_char CHR ''t'')
            \<and> (y = of_char CHR ''B'' \<or> y = of_char CHR ''b'')
            \<and> (z = of_char CHR ''A'' \<or> z = of_char CHR ''a'')
            \<and> isDigit d))
   \<and> pickBest [\<lparr>rawValue = Some (js ''TBA000000000001'')\<rparr>,
                \<lparr>rawValue = Some (js ''9999999999999999999999'')\<rparr>]
        = Some \<lparr>rawValue = Some (js ''TBA000000000001'')\<rparr>
   \<and> pickBest [\<lparr>rawValue = Some (js ''9999999999999999999999'')\<rparr>,
                \<lparr>rawValue = Some (js ''TBA000000000001'')\<rparr>]
        = Some \<lparr>rawValue = Some (js ''TBA000000000001'')\<rparr>
   \<and> nativeText [\<lparr>rawValue = Some (js ''TBA000000000001'')\<rparr>,
                  \<lparr>rawValue = Some (js ''9999999999999999999999'')\<rparr>]
        = Some (js ''TBA000000000001'')
   \<and> nativeText [\<lparr>rawValue = Some (js ''9999999999999999999999'')\<rparr>,
                  \<lparr>rawValue = Some (js ''TBA000000000001'')\<rparr>]
        = Some (js ''TBA000000000001'')
   \<and> decodeFromFile (Some example_detect_two) example_zxing example_image example_variations ()
        = \<lparr>finalResult = Some (js ''TBA000000000001''), attemptCount = 0,
           calls = [NativeDetect 0]\<rparr>
   \<and> fst (loop (example_emitted\<lparr>usingNativeDetector := True\<rparr>)
             (Some [\<lparr>rawValue = Some (js ''9999999999999999999999'')\<rparr>,
                    \<lparr>rawValue = Some (js ''TBA000000000001'')\<rparr>]) 1000 7)
        = False
   \<and> prevCandidate (snd (loop (example_emitted\<lparr>usingNativeDetector := True\<rparr>)
             (Some [\<lparr>rawValue = Some (js ''9999999999999999999999'')\<rparr>,
                    \<lparr>rawValue = Some (js ''TBA000000000001'')\<rparr>]) 1000 7))
        = Some (js ''TBA000000000001'')"
proof (intro conjI impI)
  let ?tba = "\<lambda>b. test tbaPattern (trim (rawText b))"
  let ?cmp = "\<lambda>a b. rawLength b - rawLength a"
  assume ne: "barcodes \<noteq> []"
  have "\<exists>i < length barcodes.
         pickBest barcodes = Some (barcodes ! i)
         \<and> (if \<exists>b \<in> set barcodes. ?tba b
            then ?tba (barcodes ! i) \<and> (\<forall>j < i. \<not> ?tba (barcodes ! j))
            else (\<forall>j < length barcodes. rawLength (barcodes ! j) \<le> rawLength (barcodes ! i))
                 \<and> (\<forall>j < i. rawLength (barcodes ! j) < rawLength (barcodes ! i)))"
  proof (cases "find ?tba barcodes")
    case (Some b)
    then obtain i where i: "i < length barcodes" "?tba (barcodes ! i)" "b = barcodes ! i"
      "\<forall>j < i. \<not> ?tba (barcodes ! j)"
      unfolding find_Some_iff by blast
    then have "barcodes ! i \<in> set barcodes" by simp
    with i have ex: "\<exists>b \<in> set barcodes. ?tba b" by blast
    from Some i have "pickBest barcodes = Some (barcodes ! i)" by (simp add: pickBest_def)
    with i ex show ?thesis by (simp only: if_True) blast
  next
    case None
    then have nex: "\<not> (\<exists>b \<in> set barcodes. ?tba b)" by (simp add: find_None_iff)
    from hd_array_sort_longest [OF ne] obtain i where i: "i < length barcodes"
      and h: "hd (array_sort ?cmp barcodes) = barcodes ! i"
      and mx: "\<forall>j < length barcodes. rawLength (barcodes ! j) \<le> rawLength (barcodes ! i)"
      and first: "\<forall>j < i. rawLength (barcodes ! j) < rawLength (barcodes ! i)"
      by blast
    have "array_sort ?cmp barcodes \<noteq> []" using ne by (simp add: array_sort_Nil_iff)
    with h None have "pickBest barcodes = Some (barcodes ! i)"
      by (auto simp add: pickBest_def split: list.splits)
    with i nex mx first show ?thesis by (simp only: if_False) blast
  qed
  then obtain i where i: "i < length barcodes"
    and p: "pickBest barcodes = Some (barcodes ! i)"
    and c: "if \<exists>b \<in> set barcodes. ?tba b
            then ?tba (barcodes ! i) \<and> (\<forall>j < i. \<not> ?tba (barcodes ! j))
            else (\<forall>j < length barcodes. rawLength (barcodes ! j) \<le> rawLength (barcodes ! i))
                 \<and> (\<forall>j < i. rawLength (barcodes ! j) < rawLength (barcodes ! i))"
    by blast
  let ?t = "trim (rawText (barcodes ! i))"
  have nt: "nativeText barcodes = (if ?t = [] then None else Some ?t)"
    by (rule nativeText_pickBest [OF p])
  have d: "cie file = Some img \<and> detect img = Some barcodes \<and> ?t \<noteq> [] \<longrightarrow>
            decodeFromFile (Some detect) zxing cie vs file
              = \<lparr>finalResult = Some ?t, attemptCount = 0, calls = [NativeDetect img]\<rparr>"
    using nt by (auto simp add: decodeFromFile_native)
  have l: "usingNativeDetector st \<and> ?t \<noteq> [] \<longrightarrow>
            loop st (Some barcodes) now nextId
              = (fst (maybeEmit st (pickTracking ?t) now),
                 (snd (maybeEmit st (pickTracking ?t) now))\<lparr>rafId := Some nextId\<rparr>)"
    using nt by (auto simp add: loop_def split: prod.splits)
  from i p c nt d l
  show "\<exists>i < length barcodes.
         pickBest barcodes = Some (barcodes ! i)
         \<and> (if \<exists>b \<in> set barcodes. test tbaPattern (trim (rawText b))
            then test tbaPattern (trim (rawText (barcodes ! i)))
                 \<and> (\<forall>j < i. \<not> test tbaPattern (trim (rawText (barcodes ! j))))
            else (\<forall>j < length barcodes. rawLength (barcodes ! j) \<le> rawLength (barcodes ! i))
                 \<and> (\<forall>j < i. rawLength (barcodes ! j) < rawLength (barcodes ! i)))
         \<and> nativeText barcodes
             = (if trim (rawText (barcodes ! i)) = [] then None
                else Some (trim (rawText (barcodes ! i))))
         \<and> (cie file = Some img \<and> detect img = Some barcodes
              \<and> trim (rawText (barcodes ! i)) \<noteq> [] \<longrightarrow>
            decodeFromFile (Some detect) zxing cie vs file
              = \<lparr>finalResult = Some (trim (rawText (barcodes ! i))), attemptCount = 0,
                 calls = [NativeDetect img]\<rparr>)
         \<and> (usingNativeDetector st \<and> trim (rawText (barcodes ! i)) \<noteq> [] \<longrightarrow>
            loop st (Some barcodes) now nextId
              = (fst (maybeEmit st (pickTracking (trim (rawText (barcodes ! i)))) now),
                 (snd (maybeEmit st (pickTracking (trim (rawText (barcodes ! i)))) now))
                   \<lparr>rafId := Some nextId\<rparr>))"
    by blast
next
  show "test tbaPattern s \<longleftrightarrow>
        (\<exists>x y z d rest. s = x # y # z # d # rest
            \<and> (x = of_char CHR ''T'' \<or> x = of_char CHR ''t'')
            \<and> (y = of_char CHR ''B'' \<or> y = of_char CHR ''b'')
            \<and> (z = of_char CHR ''A'' \<or> z = of_char CHR ''a'')
            \<and> isDigit d)"
    by (rule test_tba)
next
  show "pickBest [\<lparr>rawValue = Some (js ''TBA000000000001'')\<rparr>,
                \<lparr>rawValue = Some (js ''9999999999999999999999'')\<rparr>]
        = Some \<lparr>rawValue = Some (js ''TBA000000000001'')\<rparr>"
    by (rule pickBest_two_a)
  show "pickBest [\<lparr>rawValue = Some (js ''9999999999999999999999'')\<rparr>,
                \<lparr>rawValue = Some (js ''TBA000000000001'')\<rparr>]
        = Some \<lparr>rawValue = Some (js ''TBA000000000001'')\<rparr>"
    by (rule pickBest_two_b)
  show "nativeText [\<lparr>rawValue = Some (js ''TBA000000000001'')\<rparr>,
                  \<lparr>rawValue = Some (js ''9999999999999999999999'')\<rparr>]
        = Some (js ''TBA000000000001'')"
    by (rule nativeText_two_a)
  show "nativeText [\<lparr>rawValue = Some (js ''9999999999999999999999'')\<rparr>,
                  \<lparr>rawValue = Some (js ''TBA000000000001'')\<rparr>]
        = Some (js ''TBA000000000001'')"
    by (rule nativeText_two_b)
  show "decodeFromFile (Some example_detect_two) example_zxing example_image example_variations ()
        = \<lparr>finalResult = Some (js ''TBA000000000001''), attemptCount = 0,
           calls = [NativeDetect 0]\<rparr>"
    by (simp add: decodeFromFile_native [where img = 0 and barcodes =
          "[\<lparr>rawValue = Some (js ''9999999999999999999999'')\<rparr>,
            \<lparr>rawValue = Some (js ''TBA000000000001'')\<rparr>]"]
        example_detect_two_def example_image_def nativeText_two_b)
  have lp: "loop (example_emitted\<lparr>usingNativeDetector := True\<rparr>)
             (Some [\<lparr>rawValue = Some (js ''9999999999999999999999'')\<rparr>,
                    \<lparr>rawValue = Some (js ''TBA000000000001'')\<rparr>]) 1000 7
     = (fst (maybeEmit (example_emitted\<lparr>usingNativeDetector := True\<rparr>)
               (pickTracking (js ''TBA000000000001'')) 1000),
        (snd (maybeEmit (example_emitted\<lparr>usingNativeDetector := True\<rparr>)
               (pickTracking (js ''TBA000000000001'')) 1000))\<lparr>rafId := Some 7\<rparr>)"
    by (simp add: loop_def nativeText_two_b split: prod.splits)
  have "pickTracking (js ''TBA000000000001'')
          = Some \<lparr>carrier = Amazon, number = js ''TBA000000000001''\<rparr>"
    by (simp add: pickTracking_def removeWhiteSpace_def Let_def rx_eval)
  then have pt: "candidate (pickTracking (js ''TBA000000000001'')) = Some (js ''TBA000000000001'')"
    by (simp add: candidate_def js_def)
  show "fst (loop (example_emitted\<lparr>usingNativeDetector := True\<rparr>)
             (Some [\<lparr>rawValue = Some (js ''9999999999999999999999'')\<rparr>,
                    \<lparr>rawValue = Some (js ''TBA000000000001'')\<rparr>]) 1000 7)
        = False"
    unfolding lp using pt
    by (simp add: maybeEmit_def example_emitted_def initial_scanner_def Let_def js_def
        STABLE_FRAMES_def)
  show "prevCandidate (snd (loop (example_emitted\<lparr>usingNativeDetector := True\<rparr>)
             (Some [\<lparr>rawValue = Some (js ''9999999999999999999999'')\<rparr>,
                    \<lparr>rawValue = Some (js ''TBA000000000001'')\<rparr>]) 1000 7))
        = Some (js ''TBA000000000001'')"
    unfolding lp using pt
    by (simp add: maybeEmit_def example_emitted_def initial_scanner_def Let_def js_def
        STABLE_FRAMES_def)
qed

theorem pickBest_tba_then_longest_witness:
  "[\<lparr>rawValue = Some (js ''12345'')\<rparr>, \<lparr>rawValue = Some (js ''1234567 '')\<rparr>,
    \<lparr>rawValue = Some (js ''76543210'')\<rparr>] \<noteq> []
   \<and> pickBest [\<lparr>rawValue = Some (js ''12345'')\<rparr>, \<lparr>rawValue = Some (js ''1234567 '')\<rparr>,
               \<lparr>rawValue = Some (js ''76543210'')\<rparr>]
       = Some \<lparr>rawValue = Some (js ''1234567 '')\<rparr>
   \<and> nativeText [\<lparr>rawValue = Some (js ''12345'')\<rparr>, \<lparr>rawValue = Some (js ''1234567 '')\<rparr>,
               \<lparr>rawValue = Some (js ''76543210'')\<rparr>] = Some (js ''1234567'')
   \<and> example_image () = Some 0
   \<and> decodeFromFile
        (Some (\<lambda>img. Some [\<lparr>rawValue = Some (js ''12345'')\<rparr>,
                            \<lparr>rawValue = Some (js ''1234567 '')\<rparr>,
                            \<lparr>rawValue = Some (js ''76543210'')\<rparr>]))
        example_zxing example_image example_variations ()
       = \<lparr>finalResult = Some (js ''1234567''), attemptCount = 0, calls = [NativeDetect 0]\<rparr>
   \<and> usingNativeDetector (example_session\<lparr>usingNativeDetector := True\<rparr>)
   \<and> loop (example_session\<lparr>usingNativeDetector := True\<rparr>)
        (Some [\<lparr>rawValue = Some (js ''12345'')\<rparr>, \<lparr>rawValue = Some (js ''1234567 '')\<rparr>,
               \<lparr>rawValue = Some (js ''76543210'')\<rparr>]) 1000 7
       = (False, example_session\<lparr>usingNativeDetector := True, rafId := Some 7,
                   prevCandidate := None, stableCount := 0\<rparr>)"
proof -
  let ?bs = "[\<lparr>rawValue = Some (js ''12345'')\<rparr>, \<lparr>rawValue = Some (js ''1234567 '')\<rparr>,
              \<lparr>rawValue = Some (js ''76543210'')\<rparr>]"
  let ?st = "example_session\<lparr>usingNativeDetector := True\<rparr>"
  let ?detect = "\<lambda>img::nat. Some ?bs"
  have ne: "?bs \<noteq> []" by simp
  have no_tba: "\<not> (\<exists>b \<in> set ?bs. test tbaPattern (trim (rawText b)))"
    by (simp add: pickBest_tba_then_longest [THEN conjunct2, THEN conjunct1]
        trim_def rawText_def js_def isWhiteSpace_def)
  have img: "example_image () = Some 0" by (simp add: example_image_def)
  have un: "usingNativeDetector ?st" by simp
  from pickBest_tba_then_longest
    [of ?bs example_image "()" 0 ?detect example_zxing example_variations ?st 1000 7,
      THEN conjunct1] ne
  obtain i where i: "i < length ?bs" and p: "pickBest ?bs = Some (?bs ! i)"
    and c: "if \<exists>b \<in> set ?bs. test tbaPattern (trim (rawText b))
            then test tbaPattern (trim (rawText (?bs ! i)))
                 \<and> (\<forall>j < i. \<not> test tbaPattern (trim (rawText (?bs ! j))))
            else (\<forall>j < length ?bs. rawLength (?bs ! j) \<le> rawLength (?bs ! i))
                 \<and> (\<forall>j < i. rawLength (?bs ! j) < rawLength (?bs ! i))"
    and nt: "nativeText ?bs
             = (if trim (rawText (?bs ! i)) = [] then None else Some (trim (rawText (?bs ! i))))"
    and d: "example_image () = Some 0 \<and> ?detect 0 = Some ?bs \<and> trim (rawText (?bs ! i)) \<noteq> [] \<longrightarrow>
            decodeFromFile (Some ?detect) example_zxing example_image example_variations ()
              = \<lparr>finalResult = Some (trim (rawText (?bs ! i))), attemptCount = 0,
                 calls = [NativeDetect 0]\<rparr>"
    and l: "usingNativeDetector ?st \<and> trim (rawText (?bs ! i)) \<noteq> [] \<longrightarrow>
            loop ?st (Some ?bs) 1000 7
              = (fst (maybeEmit ?st (pickTracking (trim (rawText (?bs ! i)))) 1000),
                 (snd (maybeEmit ?st (pickTracking (trim (rawText (?bs ! i)))) 1000))
                   \<lparr>rafId := Some 7\<rparr>)"
    by blast
  from c no_tba
  have "(\<forall>j < length ?bs. rawLength (?bs ! j) \<le> rawLength (?bs ! i))
        \<and> (\<forall>j < i. rawLength (?bs ! j) < rawLength (?bs ! i))"
    by (simp only: if_False)
  then have mx: "\<forall>j < length ?bs. rawLength (?bs ! j) \<le> rawLength (?bs ! i)"
    and first: "\<forall>j < i. rawLength (?bs ! j) < rawLength (?bs ! i)"
    by blast+
  from i have "i = 0 \<or> i = 1 \<or> i = 2" by auto
  then have i1: "i = 1"
  proof (elim disjE)
    assume "i = 0"
    moreover have "(1::nat) < length ?bs" by simp
    ultimately have "rawLength (?bs ! 1) \<le> rawLength (?bs ! 0)" using mx by blast
    then show ?thesis by (simp add: rawLength_def js_def)
  next
    assume "i = 2"
    moreover have "(1::nat) < 2" by simp
    ultimately have "rawLength (?bs ! 1) < rawLength (?bs ! 2)" using first by blast
    then show ?thesis by (simp add: rawLength_def js_def)
  qed
  have t: "trim (rawText (?bs ! 1)) = js ''1234567''"
    by (simp add: trim_def rawText_def js_def isWhiteSpace_def)
  have tne: "js ''1234567'' \<noteq> []" by (simp add: js_def)
  have pt: "pickTracking (js ''1234567'') = None"
    by (simp add: pickTracking_def removeWhiteSpace_def Let_def rx_eval)
  from p i1 have P: "pickBest ?bs = Some \<lparr>rawValue = Some (js ''1234567 '')\<rparr>" by simp
  from nt i1 t tne have N: "nativeText ?bs = Some (js ''1234567'')" by simp
  from d i1 t tne img have D: "decodeFromFile (Some ?detect) example_zxing example_image
        example_variations ()
       = \<lparr>finalResult = Some (js ''1234567''), attemptCount = 0, calls = [NativeDetect 0]\<rparr>"
    by simp
  from l i1 t tne un have "loop ?st (Some ?bs) 1000 7
              = (fst (maybeEmit ?st (pickTracking (js ''1234567'')) 1000),
                 (snd (maybeEmit ?st (pickTracking (js ''1234567'')) 1000))\<lparr>rafId := Some 7\<rparr>)"
    by simp
  then have L: "loop ?st (Some ?bs) 1000 7
       = (False, example_session\<lparr>usingNativeDetector := True, rafId := Some 7,
                   prevCandidate := None, stableCount := 0\<rparr>)"
    by (simp add: pt maybeEmit_def candidate_def example_session_def initial_scanner_def)
  from ne P N img D un L show ?thesis by blast
qed

section \<open>Decoding an uploaded file\<close>

lemma tried_Cons:
  "tried zxing (el # els) =
     (if fallbackAttempt zxing el = None then el # tried zxing els else [el])"
  by (simp add: tried_def)

lemma realized_Cons:
  "realized file (v # vs) = (case v file of None \<Rightarrow> realized file vs | Some el \<Rightarrow> el # realized file vs)"
  by (simp add: realized_def map_filter_simps split: option.splits)

lemma zxingVariations_trace:
  "zxingVariations zxing file vs n =
     \<lparr>finalResult =
        (case find (\<lambda>el. fallbackAttempt zxing el \<noteq> None) (realized file vs) of
           None \<Rightarrow> None
         | Some el \<Rightarrow> fallbackAttempt zxing el),
      attemptCount = n + length (tried zxing (realized file vs)),
      calls = concat (map (fallbackCalls zxing) (tried zxing (realized file vs)))\<rparr>"
proof (induction vs arbitrary: n)
  case Nil
  then show ?case by (simp add: realized_def tried_def map_filter_simps)
next
  case (Cons v vs)
  show ?case
  proof (cases "v file")
    case None
    then show ?thesis using Cons.IH [of n] by (simp add: realized_Cons)
  next
    case (Some el)
    show ?thesis
    proof (cases "zxing baselineHints el")
      case Thrown
      show ?thesis
      proof (cases "zxing permissiveHints el")
        case T2: Thrown
        with Thrown Some Cons.IH [of "n + 1"] show ?thesis
          by (simp add: realized_Cons tried_Cons fallbackAttempt_def fallbackCalls_def Let_def)
      next
        case (Returned r)
        with Thrown Some Cons.IH [of "n + 1"] show ?thesis
          by (cases r)
            (simp_all add: realized_Cons tried_Cons fallbackAttempt_def fallbackCalls_def Let_def)
      qed
    next
      case (Returned r)
      with Some Cons.IH [of "n + 1"] show ?thesis
        by (cases r)
          (simp_all add: realized_Cons tried_Cons fallbackAttempt_def fallbackCalls_def Let_def)
    qed
  qed
qed

lemma nativeAttempt_calls:
  "snd (nativeAttempt nd cie file) =
     (case nd of
        None \<Rightarrow> []
      | Some detect \<Rightarrow> (case cie file of None \<Rightarrow> [] | Some img \<Rightarrow> [NativeDetect img]))"
  by (simp add: nativeAttempt_def split: option.splits)

text \<open>
  C3. In \<^verbatim>\<open>decodeFromFile\<close> the native backend is called at most once, on the
  image made from the uploaded file, before any variation; it yields the trimmed text
  of the chosen symbol if there is a detector, the image can be made, the call does
  not throw and that text is not empty, and nothing otherwise. If it yields a text,
  that is the result and ZXing is not called. Otherwise the variations are taken in
  list order; on each image ZXing is called with the baseline hints
  (\<^verbatim>\<open>TRY_HARDER = true\<close>) and, exactly when that call throws, once more with the
  permissive hints (\<^verbatim>\<open>TRY_HARDER = true\<close>, \<^verbatim>\<open>ALSO_INVERTED = true\<close>,
  \<^verbatim>\<open>PURE_BARCODE = false\<close>); the loop stops with the first image on which one of
  the two calls returns a text, and that text is the result. Two runs: a native
  detector that finds a symbol on the uploaded image ends the run after one call;
  without a native detector and with a ZXing that succeeds only with the permissive
  hints on the second image, four ZXing calls are made and the third variation is not
  tried.
\<close>

theorem decodeFromFile_native_once_then_fallback:
  "calls (decodeFromFile nd zxing cie vs file)
     = snd (nativeAttempt nd cie file)
       @ (case fst (nativeAttempt nd cie file) of
            Some text \<Rightarrow> []
          | None \<Rightarrow> concat (map (fallbackCalls zxing) (tried zxing (realized file vs))))
   \<and> snd (nativeAttempt nd cie file)
       = (case nd of
            None \<Rightarrow> []
          | Some detect \<Rightarrow> (case cie file of None \<Rightarrow> [] | Some img \<Rightarrow> [NativeDetect img]))
   \<and> fst (nativeAttempt nd cie file)
       = (case nd of
            None \<Rightarrow> None
          | Some detect \<Rightarrow>
             (case cie file of
                None \<Rightarrow> None
              | Some img \<Rightarrow>
                 (case detect img of
                    None \<Rightarrow> None
                  | Some barcodes \<Rightarrow>
                     (case pickBest barcodes of
                        None \<Rightarrow> None
                      | Some best \<Rightarrow>
                         (if trim (rawText best) = [] then None
                          else Some (trim (rawText best)))))))
   \<and> finalResult (decodeFromFile nd zxing cie vs file)
       = (case fst (nativeAttempt nd cie file) of
            Some text \<Rightarrow> Some text
          | None \<Rightarrow>
             (case find (\<lambda>el. fallbackAttempt zxing el \<noteq> None) (realized file vs) of
                None \<Rightarrow> None
              | Some el \<Rightarrow> fallbackAttempt zxing el))
   \<and> attemptCount (decodeFromFile nd zxing cie vs file)
       = (case fst (nativeAttempt nd cie file) of
            Some text \<Rightarrow> 0
          | None \<Rightarrow> length (tried zxing (realized file vs)))
   \<and> fallbackCalls zxing el
       = (case zxing baselineHints el of
            Thrown \<Rightarrow> [ZXingDecode baselineHints el, ZXingDecode permissiveHints el]
          | Returned r \<Rightarrow> [ZXingDecode baselineHints el])
   \<and> fallbackAttempt zxing el
       = (case zxing baselineHints el of
            Returned r \<Rightarrow> r
          | Thrown \<Rightarrow> (case zxing permissiveHints el of Returned r \<Rightarrow> r | Thrown \<Rightarrow> None))
   \<and> tryHarder baselineHints = Some True
   \<and> pureBarcode baselineHints = None
   \<and> alsoInverted baselineHints = None
   \<and> tryHarder permissiveHints = Some True
   \<and> alsoInverted permissiveHints = Some True
   \<and> pureBarcode permissiveHints = Some False
   \<and> decodeFromFile (Some example_detect_upload) example_zxing example_image
        example_variations ()
       = \<lparr>finalResult = Some (js ''1Z999AA10123456784''), attemptCount = 0,
          calls = [NativeDetect 0]\<rparr>
   \<and> decodeFromFile None example_zxing_permissive example_image example_three_variations ()
       = \<lparr>finalResult = Some (js ''1Z999AA10123456784''), attemptCount = 2,
          calls = [ZXingDecode baselineHints 0, ZXingDecode permissiveHints 0,
                   ZXingDecode baselineHints 1, ZXingDecode permissiveHints 1]\<rparr>"
proof -
  obtain nr nc where n: "nativeAttempt nd cie file = (nr, nc)"
    by (cases "nativeAttempt nd cie file")
  have nc: "nc = (case nd of
        None \<Rightarrow> []
      | Some detect \<Rightarrow> (case cie file of None \<Rightarrow> [] | Some img \<Rightarrow> [NativeDetect img]))"
    using nativeAttempt_calls [of nd cie "file"] n by simp
  have nt: "\<And>barcodes. nativeText barcodes
       = (case pickBest barcodes of
            None \<Rightarrow> None
          | Some best \<Rightarrow> (if trim (rawText best) = [] then None else Some (trim (rawText best))))"
  proof -
    fix barcodes
    show "nativeText barcodes
       = (case pickBest barcodes of
            None \<Rightarrow> None
          | Some best \<Rightarrow> (if trim (rawText best) = [] then None else Some (trim (rawText best))))"
    proof (cases "pickBest barcodes")
      case None
      then show ?thesis
        by (simp add: nativeText_def Let_def trim_def)
    next
      case (Some b)
      then show ?thesis by (simp add: nativeText_pickBest)
    qed
  qed
  have main: "calls (decodeFromFile nd zxing cie vs file)
     = snd (nativeAttempt nd cie file)
       @ (case fst (nativeAttempt nd cie file) of
            Some text \<Rightarrow> []
          | None \<Rightarrow> concat (map (fallbackCalls zxing) (tried zxing (realized file vs))))
   \<and> snd (nativeAttempt nd cie file)
       = (case nd of
            None \<Rightarrow> []
          | Some detect \<Rightarrow> (case cie file of None \<Rightarrow> [] | Some img \<Rightarrow> [NativeDetect img]))
   \<and> finalResult (decodeFromFile nd zxing cie vs file)
       = (case fst (nativeAttempt nd cie file) of
            Some text \<Rightarrow> Some text
          | None \<Rightarrow>
             (case find (\<lambda>el. fallbackAttempt zxing el \<noteq> None) (realized file vs) of
                None \<Rightarrow> None
              | Some el \<Rightarrow> fallbackAttempt zxing el))
   \<and> attemptCount (decodeFromFile nd zxing cie vs file)
       = (case fst (nativeAttempt nd cie file) of
            Some text \<Rightarrow> 0
          | None \<Rightarrow> length (tried zxing (realized file vs)))"
  proof (cases nr)
    case None
    with n nc show ?thesis
      by (simp add: decodeFromFile_def Let_def zxingVariations_trace)
  next
    case (Some res)
    with n nc show ?thesis by (simp add: decodeFromFile_def)
  qed
  have ntext: "fst (nativeAttempt nd cie file)
       = (case nd of
            None \<Rightarrow> None
          | Some detect \<Rightarrow>
             (case cie file of
                None \<Rightarrow> None
              | Some img \<Rightarrow>
                 (case detect img of
                    None \<Rightarrow> None
                  | Some barcodes \<Rightarrow>
                     (case pickBest barcodes of
                        None \<Rightarrow> None
                      | Some best \<Rightarrow>
                         (if trim (rawText best) = [] then None
                          else Some (trim (rawText best)))))))"
    unfolding nativeAttempt_text by (simp add: nt split: option.splits)
  have fc: "fallbackCalls zxing el
       = (case zxing baselineHints el of
            Thrown \<Rightarrow> [ZXingDecode baselineHints el, ZXingDecode permissiveHints el]
          | Returned r \<Rightarrow> [ZXingDecode baselineHints el])"
    by (simp add: fallbackCalls_def split: decode_outcome.splits)
  have fa: "fallbackAttempt zxing el
       = (case zxing baselineHints el of
            Returned r \<Rightarrow> r
          | Thrown \<Rightarrow> (case zxing permissiveHints el of Returned r \<Rightarrow> r | Thrown \<Rightarrow> None))"
    by (simp add: fallbackAttempt_def)
  have hs: "tryHarder baselineHints = Some True" "pureBarcode baselineHints = None"
    "alsoInverted baselineHints = None" "tryHarder permissiveHints = Some True"
    "alsoInverted permissiveHints = Some True" "pureBarcode permissiveHints = Some False"
    by (simp_all add: baselineHints_def permissiveHints_def)
  have e1: "decodeFromFile (Some example_detect_upload) example_zxing example_image
        example_variations ()
       = \<lparr>finalResult = Some (js ''1Z999AA10123456784''), attemptCount = 0,
          calls = [NativeDetect 0]\<rparr>"
    by (simp add: decodeFromFile_def nativeAttempt_def nativeText_def pickBest_def Let_def
      trim_def rawText_def js_def isWhiteSpace_def array_sort_def
      test_tba example_detect_upload_def example_image_def)
  have ne: "baselineHints \<noteq> permissiveHints"
    by (simp add: baselineHints_def permissiveHints_def)
  have e2: "decodeFromFile None example_zxing_permissive example_image example_three_variations ()
       = \<lparr>finalResult = Some (js ''1Z999AA10123456784''), attemptCount = 2,
          calls = [ZXingDecode baselineHints 0, ZXingDecode permissiveHints 0,
                   ZXingDecode baselineHints 1, ZXingDecode permissiveHints 1]\<rparr>"
    by (simp add: decodeFromFile_def nativeAttempt_def Let_def ne
      example_zxing_permissive_def example_three_variations_def)
  from main ntext fc fa hs e1 e2 show ?thesis by blast
qed

text \<open>
  When the native detector would succeed on a later variation's image only, the
  source never runs it there: it is called once, on the uploaded image, the two ZXing
  tries follow for each variation, and nothing is found, while the orchestration as
  specified finds the symbol with the native backend on the second variant.
\<close>

theorem decodeFromFile_native_per_variant_counterexample:
  "finalResult (decodeFromFile (Some example_detect) example_zxing example_image
                  example_variations ()) = None
   \<and> calls (decodeFromFile (Some example_detect) example_zxing example_image
               example_variations ())
     = [NativeDetect 0,
        ZXingDecode baselineHints 0, ZXingDecode permissiveHints 0,
        ZXingDecode baselineHints 1, ZXingDecode permissiveHints 1]
   \<and> spec_orchestrate example_detect example_zxing [0, 1] = Some (js ''1Z999AA10123456784'')"
  by (simp add: decodeFromFile_def nativeAttempt_def nativeText_def pickBest_def Let_def
      fallbackAttempt_def trim_def rawText_def js_def isWhiteSpace_def array_sort_def
      test_tba example_detect_def example_zxing_def example_image_def
      example_variations_def)

section \<open>The band detector\<close>














section \<open>Adaptive threshold\<close>



lemma prefixSum_0 [simp]: "prefixSum data w 0 y = 0" "prefixSum data w x 0 = 0"
  by (simp_all add: prefixSum_def)












end
